theory Spec2Isabelle
  imports Main "HOL-Library.AList"
begin

section \<open>JavaScript values\<close>

text \<open>
  The values the kernel passes around. Objects and functions are references: \<open>Obj a\<close> and
  \<open>Fun a\<close> are equal exactly when they are the same reference, which is what \<open>===\<close>
  compares. \<open>Literal\<close> is the value of an object literal written in the code (\<open>{}\<close> is
  \<open>Literal []\<close>), \<open>Array\<close> the value of an array, \<open>Error m\<close> is \<open>new Error(m)\<close>. A promise is described by how it
  eventually settles: \<open>Resolved v\<close> fulfils with \<open>v\<close>, \<open>Rejected e\<close> rejects with \<open>e\<close>,
  \<open>Pending\<close> never settles.
\<close>

datatype jsval =
    Undefined
  | Null
  | Bool bool
  | Num int
  | Str string
  | Sym nat
  | Obj nat
  | Fun nat
  | Literal "(string \<times> jsval) list"
  | Array "jsval list"
  | Error string
  | Resolved jsval
  | Rejected jsval
  | Pending

fun typeof :: "jsval \<Rightarrow> string" where
  "typeof Undefined = ''undefined''"
| "typeof (Bool b) = ''boolean''"
| "typeof (Num n) = ''number''"
| "typeof (Str s) = ''string''"
| "typeof (Sym n) = ''symbol''"
| "typeof (Fun a) = ''function''"
| "typeof v = ''object''"

fun truthy :: "jsval \<Rightarrow> bool" where
  "truthy Undefined = False"
| "truthy Null = False"
| "truthy (Bool b) = b"
| "truthy (Num n) = (n \<noteq> 0)"
| "truthy (Str s) = (s \<noteq> [])"
| "truthy v = True"

text \<open>\<open>a || b\<close> and \<open>a ?? b\<close>.\<close>

definition js_or :: "jsval \<Rightarrow> jsval \<Rightarrow> jsval" where
  "js_or a b = (if truthy a then a else b)"

definition nullish :: "jsval \<Rightarrow> jsval \<Rightarrow> jsval" where
  "nullish a b = (if a = Undefined \<or> a = Null then b else a)"

text \<open>The outcome of a call: \<open>Inl e\<close> when it throws \<open>e\<close>, \<open>Inr v\<close> when it returns \<open>v\<close>.\<close>

type_synonym outcome = "jsval + jsval"

text \<open>How a promise returned by an \<open>async\<close> function settles.\<close>

datatype settled = Fulfils jsval | Rejects jsval | Never

text \<open>\<open>await v\<close>: a promise gives its settlement, any other value is passed through.\<close>

fun await :: "jsval \<Rightarrow> settled" where
  "await (Resolved v) = Fulfils v"
| "await (Rejected e) = Rejects e"
| "await Pending = Never"
| "await v = Fulfils v"

section \<open>Lifecycle: the event bus (src/src/lifecycle.ts)\<close>

text \<open>\<open>isBailed\<close>, lines 9 to 11.\<close>

definition isBailed :: "jsval \<Rightarrow> bool" where
  "isBailed v = (v \<noteq> Null \<and> v \<noteq> Bool False \<and> v \<noteq> Undefined)"

text \<open>
  The functions the bus stores. A listener is a function of the host program, known by its
  reference only. The other three are the closures \<open>on\<close> creates:
  \<open>() => false\<close>, \<open>() => remove(this.caller.state.disposables, listener)\<close> and
  \<open>dispose\<close> (which captures the event name and the listener).
\<close>

datatype closure =
    Listener nat
  | ReturnFalse
  | RemoveDisposable nat
  | Dispose jsval nat

text \<open>
  A task of the \<open>TaskQueue\<close>: the value \<open>queue\<close> was given (a promise or not), or the
  promise \<open>sleep(0).then(() => listener())\<close>, whose listener has yet to be called.
\<close>

datatype task = Queued jsval | Deferred nat

datatype logentry = Warn "jsval list" | Debug "jsval list"

text \<open>
  \<open>_hooks\<close> is an object, \<open>{}\<close>, and \<open>this._hooks[name]\<close> reads a property of it: the
  name is turned into a property key first, so that the number 1 and the string \<open>'1'\<close> are
  one event. An event name is a string, a symbol or a number (\<open>EventName = keyof Events\<close>);
  \<open>Num n\<close> stands for an integer below \<open>2^53\<close> in size, written in decimal. The other
  primitive values have the keys JavaScript gives them. An object or a function is not an
  event name: its key would be the string its \<open>toString\<close> gives, and the model keeps it
  apart as \<open>KOther\<close>.
\<close>

datatype key = KStr string | KSym nat | KOther jsval

fun digits :: "nat \<Rightarrow> string" where
  "digits n =
     (if n < 10 then [''0123456789'' ! n] else digits (n div 10) @ [''0123456789'' ! (n mod 10)])"

declare digits.simps [simp del]

definition decimal :: "int \<Rightarrow> string" where
  "decimal n = (if n < 0 then CHR ''-'' # digits (nat (- n)) else digits (nat n))"

fun to_key :: "jsval \<Rightarrow> key" where
  "to_key (Str s) = KStr s"
| "to_key (Sym n) = KSym n"
| "to_key (Num n) = KStr (decimal n)"
| "to_key Undefined = KStr ''undefined''"
| "to_key Null = KStr ''null''"
| "to_key (Bool b) = KStr (if b then ''true'' else ''false'')"
| "to_key v = KOther v"

text \<open>
  The object \<open>{}\<close> inherits from \<open>Object.prototype\<close>: reading a property it does not have
  itself gives the property of the prototype when there is one. These are the properties
  of \<open>Object.prototype\<close>, each a function given with its \<open>length\<close>, but \<open>__proto__\<close>, which
  reads as the prototype object (and has no \<open>length\<close>).
\<close>

definition object_prototype :: "(string \<times> int option) list" where
  "object_prototype =
     [(''constructor'', Some 1), (''__defineGetter__'', Some 2), (''__defineSetter__'', Some 2),
      (''hasOwnProperty'', Some 1), (''__lookupGetter__'', Some 1), (''__lookupSetter__'', Some 1),
      (''isPrototypeOf'', Some 1), (''propertyIsEnumerable'', Some 1), (''toString'', Some 0),
      (''valueOf'', Some 0), (''__proto__'', None), (''toLocaleString'', Some 0)]"

definition inherited :: "key \<Rightarrow> bool" where
  "inherited k = (case k of KStr n \<Rightarrow> map_of object_prototype n \<noteq> None | _ \<Rightarrow> False)"

text \<open>
  The state of one \<open>Lifecycle\<close>, with what it writes to: \<open>disposables c\<close> is
  \<open>state.disposables\<close> of context \<open>c\<close>, and \<open>logged\<close> is what \<open>logger\<close> received.
  \<open>hooks k\<close> is the own property \<open>k\<close> of \<open>_hooks\<close>, \<open>None\<close> when there is none.
  \<open>maxListeners = None\<close> is a configuration without the field.
\<close>

record lifecycle =
  isActive :: bool
  tasks :: "task list"
  hooks :: "key \<Rightarrow> (nat \<times> nat) list option"
  disposables :: "nat \<Rightarrow> closure list"
  logged :: "logentry list"
  maxListeners :: "int option"

text \<open>
  What \<open>this._hooks[name]\<close> evaluates to: the array stored for the name, a value inherited
  from \<open>Object.prototype\<close> (with its \<open>length\<close>), or \<open>undefined\<close>.
\<close>

datatype slot = Own "(nat \<times> nat) list" | Inherited "int option" | Missing

definition hooks_slot :: "lifecycle \<Rightarrow> jsval \<Rightarrow> slot" where
  "hooks_slot s name =
     (case hooks s (to_key name) of
        Some hs \<Rightarrow> Own hs
      | None \<Rightarrow>
          (case to_key name of
             KStr n \<Rightarrow> (case map_of object_prototype n of Some len \<Rightarrow> Inherited len | None \<Rightarrow> Missing)
           | _ \<Rightarrow> Missing))"

text \<open>
  What a listener does when called with \<open>this\<close> and arguments: it throws or returns, and
  may change the bus (register or remove listeners, queue tasks).
\<close>

type_synonym behaviour = "nat \<Rightarrow> jsval \<Rightarrow> jsval list \<Rightarrow> lifecycle \<Rightarrow> outcome \<times> lifecycle"

text \<open>One call of a listener, as a dispatch records it.\<close>

type_synonym call = "nat \<times> outcome"

text \<open>
  \<open>getHooks\<close>, lines 68 to 74: the generator runs over \<open>hooks.slice()\<close>, a copy of the
  array as it is when the iteration starts. An inherited value is no array and has no
  \<open>slice\<close>: the call throws a \<open>TypeError\<close>, at the first step of the loop that uses the
  generator. \<open>match c session\<close> is \<open>context.match(session)\<close> of context \<open>c\<close>; the class
  \<open>Context\<close> is not among the sources, so the predicate is a parameter (a filter fixed when
  the context is made: it does not depend on the bus). The generator tests it when it comes
  to a hook; as the test does not change while the dispatch runs, the list is filtered at
  once.
\<close>

definition getHooks :: "(nat \<Rightarrow> jsval \<Rightarrow> bool) \<Rightarrow> lifecycle \<Rightarrow> jsval \<Rightarrow> jsval \<Rightarrow> jsval + nat list" where
  "getHooks match s name session =
     (case hooks_slot s name of
        Inherited len \<Rightarrow> Inl (Error ''TypeError: hooks.slice is not a function'')
      | Own hs \<Rightarrow> Inr (map snd (filter (\<lambda>(context, callback). match context session) hs))
      | Missing \<Rightarrow> Inr [])"

text \<open>The hooks a dispatch that begins in \<open>s\<close> runs over: none when \<open>getHooks\<close> throws.\<close>

definition snapshot :: "(nat \<Rightarrow> jsval \<Rightarrow> bool) \<Rightarrow> lifecycle \<Rightarrow> jsval \<Rightarrow> jsval \<Rightarrow> nat list" where
  "snapshot match s name session =
     (case getHooks match s name session of Inl e \<Rightarrow> [] | Inr cbs \<Rightarrow> cbs)"

text \<open>
  The first two statements of every dispatch:
  \<open>session = typeof args[0] === 'object' ? args.shift() : null; name = args.shift()\<close>.
\<close>

definition split_args :: "jsval list \<Rightarrow> jsval \<times> jsval \<times> jsval list" where
  "split_args args =
     (let (session, args1) =
            (case args of
               [] \<Rightarrow> (Null, [])
             | a # rest \<Rightarrow> if typeof a = ''object'' then (a, rest) else (Null, args))
      in case args1 of
           [] \<Rightarrow> (session, Undefined, [])
         | name # args2 \<Rightarrow> (session, name, args2))"

text \<open>\<open>bail\<close>, lines 121 to 128. The result comes with the calls made, in order.\<close>

fun bail_loop :: "behaviour \<Rightarrow> jsval \<Rightarrow> jsval list \<Rightarrow> nat list \<Rightarrow> lifecycle
    \<Rightarrow> outcome \<times> call list \<times> lifecycle" where
  "bail_loop beh session args [] s = (Inr Undefined, [], s)"
| "bail_loop beh session args (callback # cbs) s =
     (case beh callback session args s of
        (Inl e, s') \<Rightarrow> (Inl e, [(callback, Inl e)], s')
      | (Inr result, s') \<Rightarrow>
          if isBailed result then (Inr result, [(callback, Inr result)], s')
          else (case bail_loop beh session args cbs s' of
                  (res, tr, s'') \<Rightarrow> (res, (callback, Inr result) # tr, s'')))"

definition bail :: "behaviour \<Rightarrow> (nat \<Rightarrow> jsval \<Rightarrow> bool) \<Rightarrow> lifecycle \<Rightarrow> jsval list
    \<Rightarrow> outcome \<times> call list \<times> lifecycle" where
  "bail beh match s args =
     (case split_args args of
        (session, name, rest) \<Rightarrow>
          (case getHooks match s name session of
             Inl e \<Rightarrow> (Inl e, [], s)
           | Inr cbs \<Rightarrow> bail_loop beh session rest cbs s))"

text \<open>
  \<open>serial\<close>, lines 112 to 119: an \<open>async\<close> function, so a throw of a listener or of
  \<open>getHooks\<close>, or a rejected \<open>await\<close>, rejects the promise it returns, and a promise that
  never settles leaves it pending.
\<close>

fun serial_loop :: "behaviour \<Rightarrow> jsval \<Rightarrow> jsval list \<Rightarrow> nat list \<Rightarrow> lifecycle
    \<Rightarrow> settled \<times> call list \<times> lifecycle" where
  "serial_loop beh session args [] s = (Fulfils Undefined, [], s)"
| "serial_loop beh session args (callback # cbs) s =
     (case beh callback session args s of
        (Inl e, s') \<Rightarrow> (Rejects e, [(callback, Inl e)], s')
      | (Inr v, s') \<Rightarrow>
          (case await v of
             Rejects e \<Rightarrow> (Rejects e, [(callback, Inr v)], s')
           | Never \<Rightarrow> (Never, [(callback, Inr v)], s')
           | Fulfils result \<Rightarrow>
               if isBailed result then (Fulfils result, [(callback, Inr v)], s')
               else (case serial_loop beh session args cbs s' of
                       (res, tr, s'') \<Rightarrow> (res, (callback, Inr v) # tr, s''))))"

definition serial :: "behaviour \<Rightarrow> (nat \<Rightarrow> jsval \<Rightarrow> bool) \<Rightarrow> lifecycle \<Rightarrow> jsval list
    \<Rightarrow> settled \<times> call list \<times> lifecycle" where
  "serial beh match s args =
     (case split_args args of
        (session, name, rest) \<Rightarrow>
          (case getHooks match s name session of
             Inl e \<Rightarrow> (Rejects e, [], s)
           | Inr cbs \<Rightarrow> serial_loop beh session rest cbs s))"

text \<open>
  \<open>chain\<close>, lines 102 to 110. \<open>args[0] = result\<close> on an empty array makes it an array of
  one element, and \<open>args[0]\<close> of an empty array is \<open>undefined\<close>.
\<close>

definition set_first :: "jsval \<Rightarrow> jsval list \<Rightarrow> jsval list" where
  "set_first v args = (case args of [] \<Rightarrow> [v] | _ # rest \<Rightarrow> v # rest)"

definition first_arg :: "jsval list \<Rightarrow> jsval" where
  "first_arg args = (case args of [] \<Rightarrow> Undefined | a # _ \<Rightarrow> a)"

fun chain_loop :: "behaviour \<Rightarrow> jsval \<Rightarrow> jsval list \<Rightarrow> nat list \<Rightarrow> lifecycle
    \<Rightarrow> outcome \<times> call list \<times> lifecycle" where
  "chain_loop beh session args [] s = (Inr (first_arg args), [], s)"
| "chain_loop beh session args (callback # cbs) s =
     (case beh callback session args s of
        (Inl e, s') \<Rightarrow> (Inl e, [(callback, Inl e)], s')
      | (Inr result, s') \<Rightarrow>
          (case chain_loop beh session (set_first result args) cbs s' of
             (res, tr, s'') \<Rightarrow> (res, (callback, Inr result) # tr, s'')))"

definition chain_hooks :: "behaviour \<Rightarrow> (nat \<Rightarrow> jsval \<Rightarrow> bool) \<Rightarrow> lifecycle \<Rightarrow> jsval list
    \<Rightarrow> outcome \<times> call list \<times> lifecycle" where
  "chain_hooks beh match s args =
     (case split_args args of
        (session, name, rest) \<Rightarrow>
          (case getHooks match s name session of
             Inl e \<Rightarrow> (Inl e, [], s)
           | Inr cbs \<Rightarrow> chain_loop beh session rest cbs s))"

text \<open>\<open>waterfall\<close>, lines 92 to 100: \<open>chain\<close> with \<open>await\<close> on every result.\<close>

fun waterfall_loop :: "behaviour \<Rightarrow> jsval \<Rightarrow> jsval list \<Rightarrow> nat list \<Rightarrow> lifecycle
    \<Rightarrow> settled \<times> call list \<times> lifecycle" where
  "waterfall_loop beh session args [] s = (Fulfils (first_arg args), [], s)"
| "waterfall_loop beh session args (callback # cbs) s =
     (case beh callback session args s of
        (Inl e, s') \<Rightarrow> (Rejects e, [(callback, Inl e)], s')
      | (Inr v, s') \<Rightarrow>
          (case await v of
             Rejects e \<Rightarrow> (Rejects e, [(callback, Inr v)], s')
           | Never \<Rightarrow> (Never, [(callback, Inr v)], s')
           | Fulfils result \<Rightarrow>
               (case waterfall_loop beh session (set_first result args) cbs s' of
                  (res, tr, s'') \<Rightarrow> (res, (callback, Inr v) # tr, s''))))"

definition waterfall :: "behaviour \<Rightarrow> (nat \<Rightarrow> jsval \<Rightarrow> bool) \<Rightarrow> lifecycle \<Rightarrow> jsval list
    \<Rightarrow> settled \<times> call list \<times> lifecycle" where
  "waterfall beh match s args =
     (case split_args args of
        (session, name, rest) \<Rightarrow>
          (case getHooks match s name session of
             Inl e \<Rightarrow> (Rejects e, [], s)
           | Inr cbs \<Rightarrow> waterfall_loop beh session rest cbs s))"

text \<open>
  \<open>parallel\<close>, lines 76 to 86. The loop calls every hook in turn and collects
  \<open>Promise.resolve(callback.apply(session, args)).catch(error => logger.warn(error))\<close>.
  The call \<open>callback.apply(session, args)\<close> is evaluated first, inside the loop of the
  \<open>async\<close> function and outside any \<open>try\<close>: when it throws, the loop is left and the promise
  of \<open>parallel\<close> rejects. The loop gives the values the hooks returned, or the error.
\<close>

fun parallel_loop :: "behaviour \<Rightarrow> jsval \<Rightarrow> jsval list \<Rightarrow> nat list \<Rightarrow> lifecycle
    \<Rightarrow> (jsval + jsval list) \<times> call list \<times> lifecycle" where
  "parallel_loop beh session args [] s = (Inr [], [], s)"
| "parallel_loop beh session args (callback # cbs) s =
     (case beh callback session args s of
        (Inl e, s') \<Rightarrow> (Inl e, [(callback, Inl e)], s')
      | (Inr v, s') \<Rightarrow>
          (case parallel_loop beh session args cbs s' of
             (Inl e, tr, s'') \<Rightarrow> (Inl e, (callback, Inr v) # tr, s'')
           | (Inr vs, tr, s'') \<Rightarrow> (Inr (v # vs), (callback, Inr v) # tr, s'')))"

text \<open>
  What the \<open>catch\<close> handlers of the collected tasks log: one warning for each value that is
  a rejected promise. (They are logged in the order of the tasks.)
\<close>

definition rejections :: "jsval list \<Rightarrow> logentry list" where
  "rejections vs = concat (map (\<lambda>v. case await v of Rejects e \<Rightarrow> [Warn [e]] | _ \<Rightarrow> []) vs)"

text \<open>
  \<open>await Promise.all(tasks)\<close>: no task rejects, its \<open>catch\<close> handler having fulfilled it, so
  the promise fulfils once every task has settled, and never when one never settles.
\<close>

definition parallel :: "behaviour \<Rightarrow> (nat \<Rightarrow> jsval \<Rightarrow> bool) \<Rightarrow> lifecycle \<Rightarrow> jsval list
    \<Rightarrow> settled \<times> call list \<times> lifecycle" where
  "parallel beh match s args =
     (case split_args args of
        (session, name, rest) \<Rightarrow>
          (case getHooks match s name session of
             Inl e \<Rightarrow> (Rejects e, [], s)
           | Inr cbs \<Rightarrow>
               (case parallel_loop beh session rest cbs s of
                  (Inl e, tr, s') \<Rightarrow> (Rejects e, tr, s')
                | (Inr vs, tr, s') \<Rightarrow>
                    (if \<exists>v \<in> set vs. await v = Never then Never else Fulfils Undefined,
                     tr, s'\<lparr>logged := logged s' @ rejections vs\<rparr>))))"

text \<open>\<open>emit\<close>, lines 88 to 90: the promise of \<open>parallel\<close> is dropped.\<close>

definition emit :: "behaviour \<Rightarrow> (nat \<Rightarrow> jsval \<Rightarrow> bool) \<Rightarrow> lifecycle \<Rightarrow> jsval list
    \<Rightarrow> call list \<times> lifecycle" where
  "emit beh match s args = snd (parallel beh match s args)"

text \<open>
  \<open>remove(list, item)\<close> of cosmokit: the first element equal to \<open>item\<close> is spliced out,
  and the result says whether there was one.
\<close>

definition remove_item :: "'a list \<Rightarrow> 'a \<Rightarrow> bool \<times> 'a list" where
  "remove_item list item = (if item \<in> set list then (True, remove1 item list) else (False, list))"

text \<open>\<open>TaskQueue.queue\<close>, lines 18 to 23: the task joins the set.\<close>

definition queue :: "lifecycle \<Rightarrow> task \<Rightarrow> lifecycle" where
  "queue s t = s\<lparr>tasks := tasks s @ [t]\<rparr>"

definition max_listeners_message :: string where
  "max_listeners_message =
     ''max listener count (%d) for event \"%s\" exceeded, which may be caused by a memory leak''"

text \<open>\<open>logger.warn(...)\<close> of lines 144 to 147.\<close>

definition warn_max :: "lifecycle \<Rightarrow> int \<Rightarrow> jsval \<Rightarrow> lifecycle" where
  "warn_max s m name = s\<lparr>logged := logged s @ [Warn [Str max_listeners_message, Num m, name]]\<rparr>"

text \<open>
  \<open>on\<close>, lines 130 to 157, called from context \<open>caller\<close> (\<open>this.caller\<close>). The result is
  the error thrown or the function returned. \<open>hooks = this._hooks[name] ||= []\<close> is the
  array stored, or a new empty array that is then stored, or the value inherited from
  \<open>Object.prototype\<close>: a truthy value, so nothing is stored. In that last case
  \<open>hooks.length\<close> is the \<open>length\<close> of the inherited function, the warning is logged when
  it reaches the limit, and \<open>hooks[method]\<close> is \<open>undefined\<close>: calling it throws a
  \<open>TypeError\<close> and nothing is registered. \<open>hooks.length >= this.config.maxListeners\<close> is
  false when either side is \<open>undefined\<close>.
\<close>

definition on :: "nat \<Rightarrow> lifecycle \<Rightarrow> jsval \<Rightarrow> nat \<Rightarrow> bool \<Rightarrow> (jsval + closure) \<times> lifecycle" where
  "on caller s name listener prepend =
     (if name = Str ''ready'' \<and> isActive s then
        (Inr ReturnFalse, queue s (Deferred listener))
      else if name = Str ''dispose'' then
        (Inr (RemoveDisposable listener),
         s\<lparr>disposables := (disposables s)(caller :=
              (if prepend then Listener listener # disposables s caller
               else disposables s caller @ [Listener listener]))\<rparr>)
      else
        (case hooks_slot s name of
           Inherited len \<Rightarrow>
             (Inl (Error ''TypeError: hooks[method] is not a function''),
              (case (len, maxListeners s) of
                 (Some n, Some m) \<Rightarrow> if n \<ge> m then warn_max s m name else s
               | _ \<Rightarrow> s))
         | slot \<Rightarrow>
             (let hs = (case slot of Own hs \<Rightarrow> hs | _ \<Rightarrow> []);
                  s1 = (case maxListeners s of
                          None \<Rightarrow> s
                        | Some m \<Rightarrow> if int (length hs) \<ge> m then warn_max s m name else s);
                  s2 = s1\<lparr>hooks := (hooks s1)(to_key name \<mapsto>
                          (if prepend then (caller, listener) # hs else hs @ [(caller, listener)]))\<rparr>
              in (Inr (Dispose name listener),
                  s2\<lparr>disposables := (disposables s2)(caller :=
                        disposables s2 caller @ [Dispose name listener])\<rparr>))))"

text \<open>
  \<open>off\<close>, lines 173 to 180: \<open>findIndex\<close> looks for the first pair of this caller and this
  listener, and \<open>splice\<close> takes it out. Without one the function returns nothing. An
  inherited value has no \<open>findIndex\<close>: the call throws.
\<close>

definition off :: "nat \<Rightarrow> lifecycle \<Rightarrow> jsval \<Rightarrow> nat \<Rightarrow> outcome \<times> lifecycle" where
  "off caller s name listener =
     (case hooks_slot s name of
        Inherited len \<Rightarrow>
          (Inl (Error ''TypeError: (intermediate value).findIndex is not a function''), s)
      | slot \<Rightarrow>
          (let hs = (case slot of Own hs \<Rightarrow> hs | _ \<Rightarrow> [])
           in if (caller, listener) \<in> set hs
              then (Inr (Bool True),
                    s\<lparr>hooks := (hooks s)(to_key name \<mapsto> remove1 (caller, listener) hs)\<rparr>)
              else (Inr Undefined, s)))"

text \<open>Calling one of the stored functions from context \<open>caller\<close>, without arguments.\<close>

definition call_closure :: "behaviour \<Rightarrow> nat \<Rightarrow> closure \<Rightarrow> lifecycle \<Rightarrow> outcome \<times> lifecycle" where
  "call_closure beh caller f s =
     (case f of
        Listener l \<Rightarrow> beh l Undefined [] s
      | ReturnFalse \<Rightarrow> (Inr (Bool False), s)
      | RemoveDisposable l \<Rightarrow>
          (case remove_item (disposables s caller) (Listener l) of
             (found, ds) \<Rightarrow> (Inr (Bool found), s\<lparr>disposables := (disposables s)(caller := ds)\<rparr>))
      | Dispose name l \<Rightarrow>
          (case remove_item (disposables s caller) (Dispose name l) of
             (found, ds) \<Rightarrow> off caller (s\<lparr>disposables := (disposables s)(caller := ds)\<rparr>) name l))"

text \<open>
  One task of the queue settling: \<open>Promise.resolve(value).catch(err => logger.warn(err))\<close>
  and then \<open>this.#internal.delete(task)\<close>. A deferred task calls its listener first. The
  result is \<open>None\<close> when the task never settles.
\<close>

definition settle_task :: "task \<Rightarrow> jsval \<Rightarrow> lifecycle \<Rightarrow> lifecycle option" where
  "settle_task t v s =
     (case await v of
        Fulfils r \<Rightarrow> Some (s\<lparr>tasks := remove1 t (tasks s)\<rparr>)
      | Rejects e \<Rightarrow> Some (s\<lparr>logged := logged s @ [Warn [e]], tasks := remove1 t (tasks s)\<rparr>)
      | Never \<Rightarrow> None)"

definition run_task :: "behaviour \<Rightarrow> task \<Rightarrow> lifecycle \<Rightarrow> (call list \<times> lifecycle) option" where
  "run_task beh t s =
     (case t of
        Queued v \<Rightarrow> map_option (\<lambda>s'. ([], s')) (settle_task t v s)
      | Deferred l \<Rightarrow>
          (case beh l Undefined [] s of
             (Inl e, s') \<Rightarrow>
               Some ([(l, Inl e)], s'\<lparr>logged := logged s' @ [Warn [e]], tasks := remove1 t (tasks s')\<rparr>)
           | (Inr v, s') \<Rightarrow> map_option (\<lambda>s''. ([(l, Inr v)], s'')) (settle_task t v s')))"

text \<open>
  \<open>TaskQueue.flush\<close>, lines 25 to 29: \<open>while (this.#internal.size) await Promise.all(...)\<close>.
  The tasks settle one after the other, oldest first; a task can add tasks while it runs, and
  the loop goes on until the set is empty. The result is \<open>None\<close> when that never happens.
\<close>

partial_function (option) flush :: "behaviour \<Rightarrow> call list \<Rightarrow> lifecycle \<Rightarrow> (call list \<times> lifecycle) option" where
  "flush beh tr s =
     (case tasks s of
        [] \<Rightarrow> Some (tr, s)
      | t # ts \<Rightarrow>
          (case run_task beh t s of
             None \<Rightarrow> None
           | Some (tr', s') \<Rightarrow> flush beh (tr @ tr') s'))"

declare flush.simps [code]

text \<open>
  \<open>start\<close>, lines 182 to 190. Up to \<open>delete this._hooks.ready\<close> the function runs without
  a pause: \<open>callback()\<close> is called in the loop, and a throw there rejects the promise of
  \<open>start\<close> at once.
\<close>

fun ready_loop :: "behaviour \<Rightarrow> nat list \<Rightarrow> lifecycle \<Rightarrow> (jsval + unit) \<times> call list \<times> lifecycle" where
  "ready_loop beh [] s = (Inr (), [], s)"
| "ready_loop beh (callback # cbs) s =
     (case beh callback Undefined [] s of
        (Inl e, s') \<Rightarrow> (Inl e, [(callback, Inl e)], s')
      | (Inr v, s') \<Rightarrow>
          (case ready_loop beh cbs (queue s' (Queued v)) of
             (res, tr, s'') \<Rightarrow> (res, (callback, Inr v) # tr, s'')))"

definition start_sync :: "behaviour \<Rightarrow> (nat \<Rightarrow> jsval \<Rightarrow> bool) \<Rightarrow> lifecycle
    \<Rightarrow> (jsval + unit) \<times> call list \<times> lifecycle" where
  "start_sync beh match s =
     (let s1 = s\<lparr>isActive := True\<rparr>;
          s2 = s1\<lparr>logged := logged s1 @ [Debug [Str ''started'']]\<rparr>
      in case getHooks match s2 (Str ''ready'') Undefined of
           Inl e \<Rightarrow> (Inl e, [], s2)
         | Inr cbs \<Rightarrow>
             (case ready_loop beh cbs s2 of
                (Inl e, tr, s3) \<Rightarrow> (Inl e, tr, s3)
              | (Inr u, tr, s3) \<Rightarrow>
                  (Inr (), tr, s3\<lparr>hooks := (hooks s3)(KStr ''ready'' := None)\<rparr>)))"

definition start :: "behaviour \<Rightarrow> (nat \<Rightarrow> jsval \<Rightarrow> bool) \<Rightarrow> lifecycle
    \<Rightarrow> (settled \<times> call list \<times> lifecycle) option" where
  "start beh match s =
     (case start_sync beh match s of
        (Inl e, tr, s') \<Rightarrow> Some (Rejects e, tr, s')
      | (Inr u, tr, s') \<Rightarrow>
          map_option (\<lambda>(tr', s''). (Fulfils Undefined, tr', s'')) (flush beh tr s'))"

text \<open>
  The task queue is private to the bus (\<open>#internal\<close>): a listener can add tasks to it, by
  registering for \<open>'ready'\<close> on an active bus, and cannot take one out.
\<close>

definition only_queues :: "behaviour \<Rightarrow> bool" where
  "only_queues beh = (\<forall>l session args s. \<exists>new. tasks (snd (beh l session args s)) = tasks s @ new)"

text \<open>The claim's words: the first result that is neither null nor false nor undefined.\<close>

definition first_bailed :: "jsval list \<Rightarrow> jsval" where
  "first_bailed rs = (case filter isBailed rs of [] \<Rightarrow> Undefined | r # _ \<Rightarrow> r)"

text \<open>
  The claim's words: the hooks up to and including the one that produced such a result,
  when \<open>results cb\<close> is the result of hook \<open>cb\<close>.
\<close>

fun upto_bailed :: "(nat \<Rightarrow> jsval) \<Rightarrow> nat list \<Rightarrow> nat list" where
  "upto_bailed results [] = []"
| "upto_bailed results (cb # cbs) =
     (if isBailed (results cb) then [cb] else cb # upto_bailed results cbs)"

text \<open>What a recorded call contributed to \<open>serial\<close>: the settlement of \<open>await\<close> on it.\<close>

fun result_of :: "outcome \<Rightarrow> settled" where
  "result_of (Inl e) = Rejects e"
| "result_of (Inr v) = await v"

text \<open>
  A bus with three listeners 1, 2 and 3 of context 0 on the event \<open>'event'\<close>, registered in
  that order, which return \<open>undefined\<close>, 5 and 10.
\<close>

definition demo_hooks :: "key \<Rightarrow> (nat \<times> nat) list option" where
  "demo_hooks k = (if k = KStr ''event'' then Some [(0, 1), (0, 2), (0, 3)] else None)"

definition demo_bus :: lifecycle where
  "demo_bus = \<lparr>isActive = True, tasks = [], hooks = demo_hooks, disposables = (\<lambda>c. []),
     logged = [], maxListeners = None\<rparr>"

definition demo_results :: "nat \<Rightarrow> jsval" where
  "demo_results l = (if l = 1 then Undefined else if l = 2 then Num 5 else Num 10)"

definition demo_beh :: behaviour where
  "demo_beh l session args s = (Inr (demo_results l), s)"

definition all_match :: "nat \<Rightarrow> jsval \<Rightarrow> bool" where
  "all_match c session = True"

text \<open>\<open>prefix_of xs ys\<close>: the list \<open>xs\<close> is an initial segment of \<open>ys\<close>.\<close>

fun prefix_of :: "'a list \<Rightarrow> 'a list \<Rightarrow> bool" where
  "prefix_of [] ys = True"
| "prefix_of (x # xs) [] = False"
| "prefix_of (x # xs) (y # ys) = (x = y \<and> prefix_of xs ys)"

text \<open>The listeners a dispatch called, in the order of the calls.\<close>

definition called :: "'a \<times> call list \<times> lifecycle \<Rightarrow> nat list" where
  "called r = map fst (fst (snd r))"

text \<open>The second listener throws when it is called (a function that is not \<open>async\<close>).\<close>

definition throw_beh :: behaviour where
  "throw_beh l session args s =
     (if l = 2 then (Inl (Error ''boom''), s) else (Inr Undefined, s))"

text \<open>The second listener returns a promise that rejects (an \<open>async\<close> function that throws).\<close>

definition reject_beh :: behaviour where
  "reject_beh l session args s =
     (if l = 2 then (Inr (Rejected (Error ''boom'')), s) else (Inr Undefined, s))"

text \<open>
  The first listener, while it runs, registers listener 4 for the event of the dispatch
  and removes listener 3 from it.
\<close>

definition mut_beh :: behaviour where
  "mut_beh l session args s =
     (if l = 1
      then (Inr Undefined, snd (off 0 (snd (on 0 s (Str ''event'') 4 False)) (Str ''event'') 3))
      else (Inr Undefined, s))"

text \<open>Listener 7, while it runs, registers listener 8 for \<open>'ready'\<close>.\<close>

definition ready_beh :: behaviour where
  "ready_beh l session args s =
     (if l = 7 then (Inr Undefined, snd (on 0 s (Str ''ready'') 8 False)) else (Inr Undefined, s))"

text \<open>
  A bus that has not started, with at most one listener for an event; the same bus with one
  listener for \<open>'event'\<close>, and with the listener 7 for \<open>'ready'\<close>.
\<close>

definition idle_bus :: lifecycle where
  "idle_bus = \<lparr>isActive = False, tasks = [], hooks = (\<lambda>k. None), disposables = (\<lambda>c. []),
     logged = [], maxListeners = Some 1\<rparr>"


definition waiting_bus :: lifecycle where
  "waiting_bus = snd (on 0 idle_bus (Str ''ready'') 7 False)"

text \<open>
  A bus that has not started, with the three listeners 1, 2 and 3 of context 0 for
  \<open>'ready'\<close>, registered in that order.
\<close>

definition ready_hooks :: "key \<Rightarrow> (nat \<times> nat) list option" where
  "ready_hooks k = (if k = KStr ''ready'' then Some [(0, 1), (0, 2), (0, 3)] else None)"

definition ready_bus :: lifecycle where
  "ready_bus = \<lparr>isActive = False, tasks = [], hooks = ready_hooks, disposables = (\<lambda>c. []),
     logged = [], maxListeners = None\<rparr>"


section \<open>Registry (src/packages/core/src/registry.ts)\<close>

text \<open>
  The properties of the objects and functions the program holds: \<open>h a\<close> lists the
  properties named by a string that the object or function at reference \<open>a\<close> has, each with
  a flag and its value. The flag says that the property is the object's own and
  enumerable; it is false for a property that is inherited or not enumerable, as \<open>name\<close>
  of a function is. A property that shadows another comes before it. Reading a property
  that is not there gives \<open>undefined\<close>. The properties of an object literal are its own and
  enumerable, under distinct names.
\<close>

type_synonym heap = "nat \<Rightarrow> (string \<times> bool \<times> jsval) list"

definition props_of :: "heap \<Rightarrow> jsval \<Rightarrow> (string \<times> jsval) list" where
  "props_of h v =
     (case v of
        Obj a \<Rightarrow> map (\<lambda>(k, own, x). (k, x)) (h a)
      | Fun a \<Rightarrow> map (\<lambda>(k, own, x). (k, x)) (h a)
      | Literal ps \<Rightarrow> ps
      | _ \<Rightarrow> [])"

text \<open>
  The own enumerable properties of a value, those a rest pattern \<open>{ ...rest }\<close> copies: for
  a string they are its characters, under their indices.
\<close>

definition own_props :: "heap \<Rightarrow> jsval \<Rightarrow> (string \<times> jsval) list" where
  "own_props h v =
     (case v of
        Obj a \<Rightarrow> map (\<lambda>(k, own, x). (k, x)) (filter (\<lambda>(k, own, x). own) (h a))
      | Fun a \<Rightarrow> map (\<lambda>(k, own, x). (k, x)) (filter (\<lambda>(k, own, x). own) (h a))
      | Literal ps \<Rightarrow> ps
      | Str s \<Rightarrow> map (\<lambda>i. (decimal (int i), Str [s ! i])) [0..<length s]
      | Array xs \<Rightarrow> map (\<lambda>i. (decimal (int i), xs ! i)) [0..<length xs]
      | _ \<Rightarrow> [])"

definition getprop :: "heap \<Rightarrow> jsval \<Rightarrow> string \<Rightarrow> jsval" where
  "getprop h v k = (case map_of (props_of h v) k of None \<Rightarrow> Undefined | Some x \<Rightarrow> x)"

text \<open>\<open>isApplicable\<close>, lines 6 to 8.\<close>

definition isApplicable :: "heap \<Rightarrow> jsval \<Rightarrow> bool" where
  "isApplicable h object =
     (truthy object \<and> typeof object = ''object'' \<and> typeof (getprop h object ''apply'') = ''function'')"

text \<open>
  A dictionary: the value stored under each property key, \<open>None\<close> where there is none. (The
  order in which JavaScript enumerates the keys is left out.)
\<close>

type_synonym dict = "key \<Rightarrow> jsval option"

text \<open>
  \<open>Object.fromEntries(entries)\<close>: every name is turned into a property key, and of two
  entries under one key the later stays. \<open>Object.assign(target, source)\<close>: the entries of
  the source replace those of the target.
\<close>

definition fromEntries :: "(jsval \<times> jsval) list \<Rightarrow> dict" where
  "fromEntries entries = fold (\<lambda>(name, v) d. d(to_key name \<mapsto> v)) entries (\<lambda>k. None)"

definition assign :: "dict \<Rightarrow> dict \<Rightarrow> dict" where
  "assign target source = (\<lambda>k. case source k of Some v \<Rightarrow> Some v | None \<Rightarrow> target k)"

text \<open>
  \<open>Inject.resolve\<close>, lines 37 to 50. \<open>const { required, optional, ...rest } = inject\<close>
  reads the two properties and copies every other own enumerable property of the value:
  of a string, its characters.
\<close>

definition with_names :: "dict \<Rightarrow> jsval \<Rightarrow> bool \<Rightarrow> dict" where
  "with_names rest v required =
     (case v of
        Array names \<Rightarrow>
          assign rest (fromEntries (map (\<lambda>name. (name, Literal [(''required'', Bool required)])) names))
      | _ \<Rightarrow> rest)"

definition Inject_resolve :: "heap \<Rightarrow> jsval \<Rightarrow> dict" where
  "Inject_resolve h inject =
     (if \<not> truthy inject then (\<lambda>k. None)
      else case inject of
        Array names \<Rightarrow>
          fromEntries (map (\<lambda>name. (name, Literal [(''required'', Bool True)])) names)
      | _ \<Rightarrow>
          (let rest = map_of (map (\<lambda>(k, v). (KStr k, v))
                        (filter (\<lambda>(k, v). k \<noteq> ''required'' \<and> k \<noteq> ''optional'') (own_props h inject)));
               rest1 = with_names rest (getprop h inject ''required'') True
           in with_names rest1 (getprop h inject ''optional'') False))"

text \<open>\<open>Plugin.Meta\<close> and \<open>Plugin.resolve\<close>, lines 86 to 102.\<close>

record meta =
  meta_name :: jsval
  meta_schema :: jsval
  meta_inject :: dict
  meta_isReactive :: jsval
  meta_plugin :: jsval
  meta_scopes :: "nat list"

definition Plugin_resolve :: "heap \<Rightarrow> jsval \<Rightarrow> meta" where
  "Plugin_resolve h plugin =
     \<lparr>meta_name = (if getprop h plugin ''name'' = Str ''apply'' then Undefined
                   else getprop h plugin ''name''),
      meta_schema = js_or (getprop h plugin ''Config'') (getprop h plugin ''schema''),
      meta_inject = Inject_resolve h (js_or (getprop h plugin ''using'') (getprop h plugin ''inject'')),
      meta_isReactive = getprop h plugin ''reactive'',
      meta_plugin = plugin,
      meta_scopes = []\<rparr>"

text \<open>
  \<open>resolveConfig\<close>, lines 289 to 293. \<open>call f args\<close> is what the function \<open>f\<close> of the host
  program does on \<open>args\<close>; calling a value that is not a function throws a \<open>TypeError\<close>.
\<close>

definition apply_fn :: "(jsval \<Rightarrow> jsval list \<Rightarrow> outcome) \<Rightarrow> jsval \<Rightarrow> jsval list \<Rightarrow> outcome" where
  "apply_fn call f args =
     (if typeof f = ''function'' then call f args else Inl (Error ''TypeError: schema is not a function''))"

definition resolveConfig :: "heap \<Rightarrow> (jsval \<Rightarrow> jsval list \<Rightarrow> outcome) \<Rightarrow> jsval \<Rightarrow> jsval \<Rightarrow> outcome" where
  "resolveConfig h call plugin config =
     (let schema = js_or (getprop h plugin ''Config'') (getprop h plugin ''schema'')
      in if truthy schema \<and> getprop h plugin ''schema'' \<noteq> Bool False
         then (case apply_fn call schema [config] of
                 Inl e \<Rightarrow> Inl e
               | Inr config' \<Rightarrow> Inr (nullish config' (Literal [])))
         else Inr (nullish config (Literal [])))"

text \<open>
  Modelled from the spec: the class \<open>EffectScope\<close> (scope.ts) is not among the sources. A
  scope is recorded with the configuration it was created with, the key of its plugin, and
  the one method \<open>Registry.plugin\<close> calls on it: \<open>cancel(error)\<close> or \<open>start()\<close>.
\<close>

datatype scope_call = Cancel jsval | Start

record scope =
  scope_config :: jsval
  scope_key :: jsval
  scope_call :: scope_call

text \<open>
  The state of a \<open>Registry\<close>: \<open>internal\<close> is the \<open>Map\<close> \<open>_internal\<close>, its entries in
  insertion order. With it, what \<open>plugin\<close> reaches outside the class: \<open>emitted\<close> are the
  calls of \<open>this.context.emit(this.ctx, ...)\<close>, \<open>created\<close> the scopes made, and
  \<open>scope_active\<close> says whether \<open>this.ctx.scope.assertActive()\<close> returns (modelled from the
  spec: a disposed scope is never reactivated).
\<close>

record registry =
  internal :: "(jsval \<times> meta) list"
  scope_active :: bool
  emitted :: "(jsval \<times> jsval list) list"
  created :: "scope list"

text \<open>\<open>Registry.resolve\<close>, lines 143 to 149.\<close>

definition Registry_resolve :: "heap \<Rightarrow> jsval \<Rightarrow> bool \<Rightarrow> outcome" where
  "Registry_resolve h plugin assert =
     (if typeof plugin = ''function'' then Inr plugin
      else if isApplicable h plugin then Inr (getprop h plugin ''apply'')
      else if assert
        then Inl (Error (''invalid plugin, expect function or object with an \"apply\" method, received ''
                         @ typeof plugin))
        else Inr Undefined)"

text \<open>\<open>get\<close>, \<open>has\<close> and \<open>delete\<close>, lines 151 to 167. \<open>None\<close> is \<open>undefined\<close>.\<close>

definition Registry_get :: "heap \<Rightarrow> registry \<Rightarrow> jsval \<Rightarrow> meta option" where
  "Registry_get h r plugin =
     (case Registry_resolve h plugin False of
        Inl e \<Rightarrow> None
      | Inr key \<Rightarrow> if truthy key then map_of (internal r) key else None)"

definition Registry_has :: "heap \<Rightarrow> registry \<Rightarrow> jsval \<Rightarrow> bool" where
  "Registry_has h r plugin =
     (case Registry_resolve h plugin False of
        Inl e \<Rightarrow> False
      | Inr key \<Rightarrow> truthy key \<and> key \<in> fst ` set (internal r))"

definition Registry_delete :: "heap \<Rightarrow> registry \<Rightarrow> jsval \<Rightarrow> meta option \<times> registry" where
  "Registry_delete h r plugin =
     (case Registry_resolve h plugin False of
        Inl e \<Rightarrow> (None, r)
      | Inr key \<Rightarrow>
          (case (if truthy key then map_of (internal r) key else None) of
             None \<Rightarrow> (None, r)
           | Some m \<Rightarrow> (Some m, r\<lparr>internal := AList.delete key (internal r)\<rparr>)))"

text \<open>\<open>size\<close>, lines 139 to 141.\<close>

definition Registry_size :: "registry \<Rightarrow> nat" where
  "Registry_size r = length (internal r)"

text \<open>
  \<open>Registry.plugin\<close>, lines 193 to 232. The result is the error thrown to the caller, or
  the scope returned.
\<close>

definition Registry_plugin :: "heap \<Rightarrow> (jsval \<Rightarrow> jsval list \<Rightarrow> outcome) \<Rightarrow> registry
    \<Rightarrow> jsval \<Rightarrow> jsval \<Rightarrow> jsval \<Rightarrow> (jsval + scope) \<times> registry" where
  "Registry_plugin h call r plugin config error =
     (case Registry_resolve h plugin True of
        Inl e \<Rightarrow> (Inl e, r)
      | Inr key \<Rightarrow>
          if \<not> scope_active r then (Inl (Error ''inactive context''), r)
          else
            (let (config1, error1, r1) =
                   (if \<not> truthy error
                    then (case resolveConfig h call plugin config of
                            Inr c \<Rightarrow> (c, error, r)
                          | Inl reason \<Rightarrow>
                              (Null, reason,
                               r\<lparr>emitted := emitted r @ [(Str ''internal/error'', [reason])]\<rparr>))
                    else (config, error, r));
                 r2 = r1\<lparr>internal := AList.update key (Plugin_resolve h plugin) (internal r1)\<rparr>;
                 sc = \<lparr>scope_config = config1, scope_key = key,
                       scope_call = (if \<not> truthy config1 then Cancel error1 else Start)\<rparr>
             in (Inr sc, r2\<lparr>created := created r2 @ [sc]\<rparr>)))"

text \<open>
  \<open>inject\<close> and \<open>using\<close>, lines 185 to 191: the plugin is the object literal
  \<open>{ inject, apply: callback, name: callback.name }\<close>. Reading \<open>name\<close> of \<open>undefined\<close> or
  \<open>null\<close> throws a \<open>TypeError\<close>, before \<open>plugin\<close> is called.
\<close>

definition Registry_inject :: "heap \<Rightarrow> (jsval \<Rightarrow> jsval list \<Rightarrow> outcome) \<Rightarrow> registry
    \<Rightarrow> jsval \<Rightarrow> jsval \<Rightarrow> (jsval + scope) \<times> registry" where
  "Registry_inject h call r inject callback =
     (if callback = Undefined \<or> callback = Null
      then (Inl (Error (''TypeError: Cannot read properties of '' @
                        (if callback = Null then ''null'' else ''undefined'') @
                        '' (reading 'name')'')), r)
      else Registry_plugin h call r
             (Literal [(''inject'', inject), (''apply'', callback), (''name'', getprop h callback ''name'')])
             Undefined Undefined)"

definition Registry_using :: "heap \<Rightarrow> (jsval \<Rightarrow> jsval list \<Rightarrow> outcome) \<Rightarrow> registry
    \<Rightarrow> jsval \<Rightarrow> jsval \<Rightarrow> (jsval + scope) \<times> registry" where
  "Registry_using h call r inject callback = Registry_inject h call r inject callback"

text \<open>
  The claim's words: a value is "an object exposing an \<open>apply\<close> function" when it is an
  object (and not \<open>null\<close>) whose property \<open>apply\<close> is a function.
\<close>

definition exposes_apply :: "heap \<Rightarrow> jsval \<Rightarrow> bool" where
  "exposes_apply h v =
     (typeof v = ''object'' \<and> v \<noteq> Null \<and> typeof (getprop h v ''apply'') = ''function'')"

text \<open>
  A class (reference 1) with a static method \<open>apply\<close> (reference 2), an object (reference
  3) whose \<open>apply\<close> is the same function, and a plugin object (reference 4) whose \<open>Config\<close>
  (reference 5) throws. \<open>plain_call\<close> is a host program where function 5 throws and every
  other function returns \<open>undefined\<close>.
\<close>

definition class_heap :: heap where
  "class_heap a =
     (if a = 1 then [(''apply'', True, Fun 2), (''name'', False, Str ''P'')]
      else if a = 3 then [(''apply'', True, Fun 2)]
      else if a = 4 then [(''apply'', True, Fun 6), (''Config'', True, Fun 5)]
      else [])"

definition plain_call :: "jsval \<Rightarrow> jsval list \<Rightarrow> outcome" where
  "plain_call f args = (if f = Fun 5 then Inl (Error ''bad config'') else Inr Undefined)"

definition empty_registry :: registry where
  "empty_registry = \<lparr>internal = [], scope_active = True, emitted = [], created = []\<rparr>"

text \<open>
  The registry after \<open>plugin\<close> of the class; after \<open>plugin\<close> of the object; and after a
  second \<open>plugin\<close> of the same object with another configuration.
\<close>

definition class_registry :: registry where
  "class_registry = snd (Registry_plugin class_heap plain_call empty_registry (Fun 1) Undefined Undefined)"

definition once_registry :: registry where
  "once_registry = snd (Registry_plugin class_heap plain_call empty_registry (Obj 3) Undefined Undefined)"

definition twice_registry :: registry where
  "twice_registry = snd (Registry_plugin class_heap plain_call once_registry (Obj 3) (Num 1) Undefined)"

section \<open>Service binding (modelled from the spec)\<close>

text \<open>
  Modelled from the spec: the service table and the effect scope (context.ts and scope.ts)
  are not among the sources; of the write of a service only the test \<open>dependency update\<close>
  of tests/service.spec.ts is. The definitions of this section follow sections 3, 4.1 and
  4.2 of the specification. A scope has a dependency specification (service name and
  whether it is required), a status and its disposables; the kernel has the service table
  and the scopes, a scope being known by its position. The journal lists what happened, in
  order: a disposable of a scope ran, a service was written, the body of a scope was
  invoked.
\<close>

datatype status = ScopePending | ScopeActive | ScopeFailed | ScopeDisposed

record effect_scope =
  es_deps :: "(string \<times> bool) list"
  es_reactive :: bool
  es_status :: status
  es_disposables :: "nat list"

datatype event = Ran nat nat | Wrote string jsval | Invoked nat

record kernel =
  service_table :: "string \<Rightarrow> jsval"
  effect_scopes :: "effect_scope list"
  journal :: "event list"

text \<open>
  Modelled from the spec: a scope requires a name its specification marks required, and
  watches a name it requires or, when the plugin is reactive, lists as optional.
\<close>

definition requires :: "effect_scope \<Rightarrow> string \<Rightarrow> bool" where
  "requires sc n = list_ex (\<lambda>(m, required). m = n \<and> required) (es_deps sc)"

definition watches :: "effect_scope \<Rightarrow> string \<Rightarrow> bool" where
  "watches sc n = list_ex (\<lambda>(m, required). m = n \<and> (required \<or> es_reactive sc)) (es_deps sc)"

text \<open>
  Modelled from the spec: a scope is satisfiable when every required name has a value in
  the table. The specification says "a non-undefined value"; the test expects no restart
  after \<open>app.foo = null\<close>. What counts as a value is the parameter \<open>avail\<close>.
\<close>

definition satisfiable :: "(jsval \<Rightarrow> bool) \<Rightarrow> (string \<Rightarrow> jsval) \<Rightarrow> effect_scope \<Rightarrow> bool" where
  "satisfiable avail tbl sc = list_all (\<lambda>(m, required). required \<longrightarrow> avail (tbl m)) (es_deps sc)"

text \<open>
  Modelled from the spec: cancelling a scope runs its disposables, the most recently
  registered first, and leaves it pending; a disposed scope stays as it is.
\<close>

definition cancel_events :: "nat \<Rightarrow> effect_scope \<Rightarrow> event list" where
  "cancel_events sid sc =
     (if es_status sc = ScopeDisposed then [] else map (Ran sid) (rev (es_disposables sc)))"

definition cancel_scope :: "effect_scope \<Rightarrow> effect_scope" where
  "cancel_scope sc =
     (if es_status sc = ScopeDisposed then sc
      else sc\<lparr>es_status := ScopePending, es_disposables := []\<rparr>)"

text \<open>
  Modelled from the spec: a pending or failed scope that is satisfiable is started, which
  invokes the body of the plugin; \<open>body sid\<close> throws (the scope is then failed) or gives the
  disposables the body registered.
\<close>

definition startable :: "(jsval \<Rightarrow> bool) \<Rightarrow> (string \<Rightarrow> jsval) \<Rightarrow> effect_scope \<Rightarrow> bool" where
  "startable avail tbl sc =
     ((es_status sc = ScopePending \<or> es_status sc = ScopeFailed) \<and> satisfiable avail tbl sc)"

definition start_events :: "(jsval \<Rightarrow> bool) \<Rightarrow> (string \<Rightarrow> jsval) \<Rightarrow> nat \<Rightarrow> effect_scope \<Rightarrow> event list" where
  "start_events avail tbl sid sc = (if startable avail tbl sc then [Invoked sid] else [])"

definition start_scope :: "(jsval \<Rightarrow> bool) \<Rightarrow> (nat \<Rightarrow> jsval + nat list) \<Rightarrow> (string \<Rightarrow> jsval)
    \<Rightarrow> nat \<Rightarrow> effect_scope \<Rightarrow> effect_scope" where
  "start_scope avail body tbl sid sc =
     (if startable avail tbl sc
      then (case body sid of
              Inl e \<Rightarrow> sc\<lparr>es_status := ScopeFailed\<rparr>
            | Inr ds \<Rightarrow> sc\<lparr>es_status := ScopeActive, es_disposables := ds\<rparr>)
      else sc)"

definition numbered :: "'a list \<Rightarrow> (nat \<times> 'a) list" where
  "numbered xs = zip [0..<length xs] xs"

text \<open>
  Modelled from the spec: writing the value a name already has (the same reference) does
  nothing. Any other write cancels every scope that watches the name, then changes the
  table, then starts the cancelled scopes that are satisfiable.
\<close>

definition set_service :: "(jsval \<Rightarrow> bool) \<Rightarrow> (nat \<Rightarrow> jsval + nat list) \<Rightarrow> kernel
    \<Rightarrow> string \<Rightarrow> jsval \<Rightarrow> kernel" where
  "set_service avail body k n v =
     (if service_table k n = v then k
      else
        (let cancelled = map (\<lambda>sc. if watches sc n then cancel_scope sc else sc) (effect_scopes k);
             before = concat (map (\<lambda>(sid, sc). if watches sc n then cancel_events sid sc else [])
                               (numbered (effect_scopes k)));
             tbl = (service_table k)(n := v);
             started = map (\<lambda>(sid, sc). if watches sc n then start_scope avail body tbl sid sc else sc)
                          (numbered cancelled);
             after = concat (map (\<lambda>(sid, sc). if watches sc n then start_events avail tbl sid sc else [])
                              (numbered cancelled))
         in \<lparr>service_table = tbl, effect_scopes = started,
              journal = journal k @ before @ [Wrote n v] @ after\<rparr>))"

definition is_ran :: "event \<Rightarrow> bool" where
  "is_ran e = (case e of Ran s d \<Rightarrow> True | _ \<Rightarrow> False)"

definition is_invoked :: "event \<Rightarrow> bool" where
  "is_invoked e = (case e of Invoked s \<Rightarrow> True | _ \<Rightarrow> False)"

definition ran_by :: "nat \<Rightarrow> event \<Rightarrow> bool" where
  "ran_by sid e = (case e of Ran s d \<Rightarrow> s = sid | _ \<Rightarrow> False)"

text \<open>
  The test \<open>dependency update\<close>: one scope that requires \<open>foo\<close>, whose body registers one
  \<open>dispose\<close> listener (42). The four writes of the test are \<open>{ bar: 100 }\<close> (reference 1),
  the same reference again, \<open>{ bar: 300 }\<close> (reference 2) and \<open>null\<close>.
\<close>

definition present :: "jsval \<Rightarrow> bool" where
  "present v = (v \<noteq> Undefined \<and> v \<noteq> Null)"

definition test_body :: "nat \<Rightarrow> jsval + nat list" where
  "test_body sid = Inr [42]"

definition test_kernel :: kernel where
  "test_kernel =
     \<lparr>service_table = (\<lambda>n. Undefined),
      effect_scopes = [\<lparr>es_deps = [(''foo'', True)], es_reactive = False,
                        es_status = ScopePending, es_disposables = []\<rparr>],
      journal = []\<rparr>"

definition test_kernel1 :: kernel where
  "test_kernel1 = set_service present test_body test_kernel ''foo'' (Obj 1)"

definition test_kernel2 :: kernel where
  "test_kernel2 = set_service present test_body test_kernel1 ''foo'' (Obj 1)"

definition test_kernel3 :: kernel where
  "test_kernel3 = set_service present test_body test_kernel2 ''foo'' (Obj 2)"

definition test_kernel4 :: kernel where
  "test_kernel4 = set_service present test_body test_kernel3 ''foo'' Null"

section \<open>Serial and bail dispatch\<close>

lemma first_bailed_Nil: "first_bailed [] = Undefined"
  by (simp add: first_bailed_def)

lemma first_bailed_Cons: "first_bailed (r # rs) = (if isBailed r then r else first_bailed rs)"
  by (simp add: first_bailed_def)

lemma bail_loop_calls:
  "bail_loop beh session args cbs s = (res, tr, s') \<Longrightarrow>
     map fst tr = take (length tr) cbs \<and>
     (\<forall>c \<in> set (butlast tr). \<exists>r. snd c = Inr r \<and> \<not> isBailed r) \<and>
     (case res of
        Inl e \<Rightarrow> tr \<noteq> [] \<and> snd (last tr) = Inl e
      | Inr v \<Rightarrow> (\<exists>rs. map snd tr = map Inr rs \<and> v = first_bailed rs) \<and>
                 (\<not> isBailed v \<longrightarrow> length tr = length cbs))"
proof (induction cbs arbitrary: s res tr s')
  case Nil
  then show ?case by (auto simp: first_bailed_Nil isBailed_def)
next
  case (Cons cb cbs)
  obtain out s1 where b: "beh cb session args s = (out, s1)" by (cases "beh cb session args s")
  show ?case
  proof (cases out)
    case (Inl e)
    with Cons.prems b show ?thesis by auto
  next
    case (Inr r)
    show ?thesis
    proof (cases "isBailed r")
      case True
      with Cons.prems b Inr have "res = Inr r" "tr = [(cb, Inr r)]" by auto
      then show ?thesis using True by (auto simp: first_bailed_Cons intro: exI[of _ "[r]"])
    next
      case False
      obtain res2 tr2 s2 where l: "bail_loop beh session args cbs s1 = (res2, tr2, s2)"
        by (cases "bail_loop beh session args cbs s1")
      with Cons.prems b Inr False have eq: "res = res2" "tr = (cb, Inr r) # tr2" by auto
      note ih = Cons.IH[OF l]
      show ?thesis
      proof (cases res2)
        case (Inl e)
        with ih eq False show ?thesis by (auto split: if_splits)
      next
        case r2: (Inr v)
        with ih obtain rs where rs: "map snd tr2 = map Inr rs" "v = first_bailed rs" by auto
        have "map snd tr = map Inr (r # rs)" "v = first_bailed (r # rs)"
          using rs eq False by (auto simp: first_bailed_Cons)
        then have "\<exists>rs. map snd tr = map Inr rs \<and> v = first_bailed rs" by blast
        with ih eq False r2 show ?thesis by (auto split: if_splits)
      qed
    qed
  qed
qed

lemma serial_loop_calls:
  "serial_loop beh session args cbs s = (res, tr, s') \<Longrightarrow>
     map fst tr = take (length tr) cbs \<and>
     (\<forall>c \<in> set (butlast tr). \<exists>r. result_of (snd c) = Fulfils r \<and> \<not> isBailed r) \<and>
     (case res of
        Fulfils v \<Rightarrow> (\<exists>rs. map (result_of \<circ> snd) tr = map Fulfils rs \<and> v = first_bailed rs) \<and>
                 (\<not> isBailed v \<longrightarrow> length tr = length cbs)
      | _ \<Rightarrow> tr \<noteq> [] \<and> result_of (snd (last tr)) = res)"
proof (induction cbs arbitrary: s res tr s')
  case Nil
  then show ?case by (auto simp: first_bailed_Nil isBailed_def)
next
  case (Cons cb cbs)
  obtain out s1 where b: "beh cb session args s = (out, s1)" by (cases "beh cb session args s")
  show ?case
  proof (cases out)
    case (Inl e)
    with Cons.prems b show ?thesis by auto
  next
    case (Inr w)
    show ?thesis
    proof (cases "await w")
      case (Rejects e)
      with Cons.prems b Inr have "res = Rejects e" "tr = [(cb, Inr w)]" by auto
      then show ?thesis using Rejects by simp
    next
      case Never
      with Cons.prems b Inr have "res = Never" "tr = [(cb, Inr w)]" by auto
      then show ?thesis using Never by simp
    next
      case (Fulfils r)
      show ?thesis
      proof (cases "isBailed r")
        case True
        with Cons.prems b Inr Fulfils have "res = Fulfils r" "tr = [(cb, Inr w)]" by auto
        then show ?thesis using True Fulfils
          by (auto simp: first_bailed_Cons intro: exI[of _ "[r]"])
      next
        case False
        obtain res2 tr2 s2 where l: "serial_loop beh session args cbs s1 = (res2, tr2, s2)"
          by (cases "serial_loop beh session args cbs s1")
        with Cons.prems b Inr Fulfils False have eq: "res = res2" "tr = (cb, Inr w) # tr2"
          by auto
        note ih = Cons.IH[OF l]
        show ?thesis
        proof (cases res2)
          case f2: (Fulfils v)
          with ih obtain rs
            where rs: "map (result_of \<circ> snd) tr2 = map Fulfils rs" "v = first_bailed rs"
            by auto
          have "map (result_of \<circ> snd) tr = map Fulfils (r # rs)" "v = first_bailed (r # rs)"
            using rs eq False Fulfils by (auto simp: first_bailed_Cons)
          then have "\<exists>rs. map (result_of \<circ> snd) tr = map Fulfils rs \<and> v = first_bailed rs"
            by blast
          with ih eq False f2 Fulfils show ?thesis by (auto split: if_splits)
        next
          case (Rejects e)
          with ih eq False Fulfils show ?thesis by (auto split: if_splits)
        next
          case Never
          with ih eq False Fulfils show ?thesis by (auto split: if_splits)
        qed
      qed
    qed
  qed
qed

lemma first_bailed_none: "\<not> isBailed (first_bailed rs) \<Longrightarrow> first_bailed rs = Undefined"
  by (induction rs) (auto simp: first_bailed_Nil first_bailed_Cons)

lemma bail_loop_total:
  assumes "\<forall>cb \<in> set cbs. \<forall>t. \<exists>v. fst (beh cb session args t) = Inr v"
  shows "\<exists>rs tr s'. bail_loop beh session args cbs s = (Inr (first_bailed rs), tr, s') \<and>
           map snd tr = map Inr rs \<and> map fst tr = take (length rs) cbs \<and>
           (\<forall>r \<in> set (butlast rs). \<not> isBailed r) \<and>
           (\<not> isBailed (first_bailed rs) \<longrightarrow> length rs = length cbs)"
  using assms
proof (induction cbs arbitrary: s)
  case Nil
  show ?case by (rule exI[of _ "[]"]) (simp add: first_bailed_Nil)
next
  case (Cons cb cbs)
  from Cons.prems obtain v where "fst (beh cb session args s) = Inr v"
    by (meson list.set_intros(1))
  then obtain s1 where b: "beh cb session args s = (Inr v, s1)"
    by (cases "beh cb session args s") auto
  show ?case
  proof (cases "isBailed v")
    case True
    with b show ?thesis by (intro exI[of _ "[v]"]) (simp add: first_bailed_Cons)
  next
    case False
    from Cons.prems have "\<forall>cb \<in> set cbs. \<forall>t. \<exists>v. fst (beh cb session args t) = Inr v" by simp
    from Cons.IH[OF this, of s1] obtain rs tr s'
      where ih: "bail_loop beh session args cbs s1 = (Inr (first_bailed rs), tr, s')"
        "map snd tr = map Inr rs" "map fst tr = take (length rs) cbs"
        "\<forall>r \<in> set (butlast rs). \<not> isBailed r"
        "\<not> isBailed (first_bailed rs) \<longrightarrow> length rs = length cbs" by blast
    have "bail_loop beh session args (cb # cbs) s =
            (Inr (first_bailed (v # rs)), (cb, Inr v) # tr, s')"
      using b False ih(1) by (simp add: first_bailed_Cons)
    moreover have "map snd ((cb, Inr v) # tr) = map Inr (v # rs)" using ih(2) by simp
    moreover have "map fst ((cb, Inr v) # tr) = take (length (v # rs)) (cb # cbs)"
      using ih(3) by simp
    moreover have "\<forall>r \<in> set (butlast (v # rs)). \<not> isBailed r" using ih(4) False by auto
    moreover have "\<not> isBailed (first_bailed (v # rs)) \<longrightarrow> length (v # rs) = length (cb # cbs)"
      using ih(5) False by (simp add: first_bailed_Cons)
    ultimately show ?thesis by blast
  qed
qed

lemma bail_loop_results:
  assumes "\<forall>cb \<in> set cbs. \<forall>t. fst (beh cb session args t) = Inr (results cb)"
  shows "fst (bail_loop beh session args cbs s) = Inr (first_bailed (map results cbs)) \<and>
         map fst (fst (snd (bail_loop beh session args cbs s))) = upto_bailed results cbs"
  using assms
proof (induction cbs arbitrary: s)
  case Nil
  show ?case by (simp add: first_bailed_Nil)
next
  case (Cons cb cbs)
  from Cons.prems have "fst (beh cb session args s) = Inr (results cb)" by simp
  then obtain s1 where b: "beh cb session args s = (Inr (results cb), s1)"
    by (cases "beh cb session args s") auto
  from Cons.prems have "\<forall>cb \<in> set cbs. \<forall>t. fst (beh cb session args t) = Inr (results cb)" by simp
  note ih = Cons.IH[OF this, of s1]
  show ?case using b ih by (auto simp: first_bailed_Cons split: prod.splits)
qed

lemma serial_loop_total:
  assumes "\<forall>cb \<in> set cbs. \<forall>t. \<exists>v r. fst (beh cb session args t) = Inr v \<and> await v = Fulfils r"
  shows "\<exists>rs tr s'. serial_loop beh session args cbs s = (Fulfils (first_bailed rs), tr, s') \<and>
           map (result_of \<circ> snd) tr = map Fulfils rs \<and> map fst tr = take (length rs) cbs \<and>
           (\<forall>r \<in> set (butlast rs). \<not> isBailed r) \<and>
           (\<not> isBailed (first_bailed rs) \<longrightarrow> length rs = length cbs)"
  using assms
proof (induction cbs arbitrary: s)
  case Nil
  show ?case by (rule exI[of _ "[]"]) (simp add: first_bailed_Nil)
next
  case (Cons cb cbs)
  from Cons.prems obtain v r where "fst (beh cb session args s) = Inr v" and a: "await v = Fulfils r"
    by (meson list.set_intros(1))
  then obtain s1 where b: "beh cb session args s = (Inr v, s1)"
    by (cases "beh cb session args s") auto
  show ?case
  proof (cases "isBailed r")
    case True
    with b a show ?thesis by (intro exI[of _ "[r]"]) (simp add: first_bailed_Cons)
  next
    case False
    from Cons.prems
    have "\<forall>cb \<in> set cbs. \<forall>t. \<exists>v r. fst (beh cb session args t) = Inr v \<and> await v = Fulfils r"
      by simp
    from Cons.IH[OF this, of s1] obtain rs tr s'
      where ih: "serial_loop beh session args cbs s1 = (Fulfils (first_bailed rs), tr, s')"
        "map (result_of \<circ> snd) tr = map Fulfils rs" "map fst tr = take (length rs) cbs"
        "\<forall>r \<in> set (butlast rs). \<not> isBailed r"
        "\<not> isBailed (first_bailed rs) \<longrightarrow> length rs = length cbs" by blast
    have "serial_loop beh session args (cb # cbs) s =
            (Fulfils (first_bailed (r # rs)), (cb, Inr v) # tr, s')"
      using b a False ih(1) by (simp add: first_bailed_Cons)
    moreover have "map (result_of \<circ> snd) ((cb, Inr v) # tr) = map Fulfils (r # rs)"
      using ih(2) a by simp
    moreover have "map fst ((cb, Inr v) # tr) = take (length (r # rs)) (cb # cbs)"
      using ih(3) by simp
    moreover have "\<forall>x \<in> set (butlast (r # rs)). \<not> isBailed x" using ih(4) False by auto
    moreover have "\<not> isBailed (first_bailed (r # rs)) \<longrightarrow> length (r # rs) = length (cb # cbs)"
      using ih(5) False by (simp add: first_bailed_Cons)
    ultimately show ?thesis by blast
  qed
qed

lemma serial_loop_results:
  assumes "\<forall>cb \<in> set cbs. \<forall>t. \<exists>v. fst (beh cb session args t) = Inr v \<and> await v = Fulfils (results cb)"
  shows "fst (serial_loop beh session args cbs s) = Fulfils (first_bailed (map results cbs)) \<and>
         map fst (fst (snd (serial_loop beh session args cbs s))) = upto_bailed results cbs"
  using assms
proof (induction cbs arbitrary: s)
  case Nil
  show ?case by (simp add: first_bailed_Nil)
next
  case (Cons cb cbs)
  from Cons.prems obtain v where "fst (beh cb session args s) = Inr v"
    and a: "await v = Fulfils (results cb)" by (meson list.set_intros(1))
  then obtain s1 where b: "beh cb session args s = (Inr v, s1)"
    by (cases "beh cb session args s") auto
  from Cons.prems
  have "\<forall>cb \<in> set cbs. \<forall>t. \<exists>v. fst (beh cb session args t) = Inr v \<and> await v = Fulfils (results cb)"
    by simp
  note ih = Cons.IH[OF this, of s1]
  show ?case using b a ih by (auto simp: first_bailed_Cons split: prod.splits)
qed

text \<open>
  A name that \<open>Object.prototype\<close> does not define has a hook list, the one stored for it or
  the empty one.
\<close>

lemma hooks_slot_own:
  "\<not> inherited (to_key name) \<Longrightarrow>
     hooks_slot s name = (case hooks s (to_key name) of None \<Rightarrow> Missing | Some hs \<Rightarrow> Own hs)"
  by (auto simp: hooks_slot_def inherited_def split: option.splits key.splits)

lemma getHooks_own:
  "\<not> inherited (to_key name) \<Longrightarrow> getHooks match s name session = Inr (snapshot match s name session)"
  by (simp add: snapshot_def getHooks_def hooks_slot_own split: option.splits)

text \<open>
  The order of a hook list is the order of registration: \<open>on\<close> puts the listener at the
  end of the list of its event, and at the front only when asked to (\<open>prepend\<close>).
\<close>

lemma on_registers:
  assumes "name \<noteq> Str ''dispose''" "\<not> (name = Str ''ready'' \<and> isActive s)"
    and "\<not> inherited (to_key name)"
  shows "fst (on caller s name l prepend) = Inr (Dispose name l) \<and>
         hooks (snd (on caller s name l prepend)) (to_key name) =
           Some (if prepend
                 then (caller, l) # (case hooks s (to_key name) of None \<Rightarrow> [] | Some hs \<Rightarrow> hs)
                 else (case hooks s (to_key name) of None \<Rightarrow> [] | Some hs \<Rightarrow> hs) @ [(caller, l)])"
  using assms
  by (auto simp: on_def Let_def hooks_slot_own warn_max_def split: option.splits)

lemma demo_split: "split_args [Str ''event''] = (Null, Str ''event'', [])"
  by (simp add: split_args_def)

lemma demo_getHooks: "getHooks all_match demo_bus (Str ''event'') Null = Inr [1, 2, 3]"
  by (simp add: getHooks_def hooks_slot_def demo_bus_def demo_hooks_def all_match_def)

lemma demo_snapshot: "snapshot all_match demo_bus (Str ''event'') Null = [1, 2, 3]"
  by (simp add: snapshot_def demo_getHooks)

lemma event_own: "\<not> inherited (to_key (Str ''event''))"
  by (simp add: inherited_def object_prototype_def)

lemma toString_split: "split_args [Str ''toString''] = (Null, Str ''toString'', [])"
  by (simp add: split_args_def)

lemma toString_getHooks:
  "getHooks all_match demo_bus (Str ''toString'') Null =
     Inl (Error ''TypeError: hooks.slice is not a function'')"
  by (simp add: getHooks_def hooks_slot_def demo_bus_def demo_hooks_def object_prototype_def)

text \<open>
  Claim C2 does not hold for every list of hooks and every event name. Of the three
  listeners of \<open>'event'\<close> the second throws: \<open>bail\<close> throws its error and \<open>serial\<close> rejects
  with it, and neither returns a result or \<open>undefined\<close>. For the event name \<open>'toString'\<close>,
  for which no listener is registered, \<open>this._hooks[name]\<close> is the function inherited from
  \<open>Object.prototype\<close> and \<open>hooks.slice()\<close> throws: \<open>bail\<close> throws a \<open>TypeError\<close> and
  \<open>serial\<close> rejects with it, where the claim has them return \<open>undefined\<close>.
\<close>

theorem serial_bail_throw_counterexample:
  "bail throw_beh all_match demo_bus [Str ''event''] =
     (Inl (Error ''boom''), [(1, Inr Undefined), (2, Inl (Error ''boom''))], demo_bus) \<and>
   serial throw_beh all_match demo_bus [Str ''event''] =
     (Rejects (Error ''boom''), [(1, Inr Undefined), (2, Inl (Error ''boom''))], demo_bus) \<and>
   hooks demo_bus (KStr ''toString'') = None \<and>
   bail demo_beh all_match demo_bus [Str ''toString''] =
     (Inl (Error ''TypeError: hooks.slice is not a function''), [], demo_bus) \<and>
   serial demo_beh all_match demo_bus [Str ''toString''] =
     (Rejects (Error ''TypeError: hooks.slice is not a function''), [], demo_bus)"
proof -
  have a: "bail throw_beh all_match demo_bus [Str ''event''] =
     (Inl (Error ''boom''), [(1, Inr Undefined), (2, Inl (Error ''boom''))], demo_bus)"
    by (simp add: bail_def demo_split demo_getHooks throw_beh_def isBailed_def)
  have b: "serial throw_beh all_match demo_bus [Str ''event''] =
     (Rejects (Error ''boom''), [(1, Inr Undefined), (2, Inl (Error ''boom''))], demo_bus)"
    by (simp add: serial_def demo_split demo_getHooks throw_beh_def isBailed_def)
  have c: "hooks demo_bus (KStr ''toString'') = None"
    by (simp add: demo_bus_def demo_hooks_def)
  from a b c toString_split toString_getHooks show ?thesis
    by (simp add: bail_def serial_def)
qed

text \<open>
  Claim C2, amended. Let the event name be one that \<open>Object.prototype\<close> does not define,
  and \<open>cbs\<close> its matching hooks in the order of the hook list. When no hook throws,
  \<open>bail\<close> returns: it calls an initial segment of \<open>cbs\<close>, each hook once and in order, every
  call but the last gives a result that is null, false or undefined, and the value
  returned is the first result that is none of the three, or \<open>undefined\<close> when there is
  none, and then every hook was called. When each hook \<open>cb\<close> returns \<open>results cb\<close>,
  the value is the first such one of \<open>results\<close> over \<open>cbs\<close> and the hooks called are those
  up to and including the one that gave it. The same holds of \<open>serial\<close> when the hooks
  return values or promises that fulfil, the result of a call being what \<open>await\<close> gives on
  it.
\<close>

theorem serial_bail_first_result:
  assumes sp: "split_args args = (session, name, rest)"
    and own: "\<not> inherited (to_key name)"
    and cbs: "cbs = snapshot match s name session"
  shows
   "((\<forall>cb \<in> set cbs. \<forall>t. \<exists>v. fst (beh cb session rest t) = Inr v) \<longrightarrow>
       (\<exists>rs. fst (bail beh match s args) = Inr (first_bailed rs) \<and>
             map snd (fst (snd (bail beh match s args))) = map Inr rs \<and>
             called (bail beh match s args) = take (length rs) cbs \<and>
             (\<forall>r \<in> set (butlast rs). \<not> isBailed r) \<and>
             (\<not> isBailed (first_bailed rs) \<longrightarrow>
                first_bailed rs = Undefined \<and> length rs = length cbs))) \<and>
    ((\<forall>cb \<in> set cbs. \<forall>t. fst (beh cb session rest t) = Inr (results cb)) \<longrightarrow>
       fst (bail beh match s args) = Inr (first_bailed (map results cbs)) \<and>
       called (bail beh match s args) = upto_bailed results cbs) \<and>
    ((\<forall>cb \<in> set cbs. \<forall>t. \<exists>v r. fst (beh cb session rest t) = Inr v \<and> await v = Fulfils r) \<longrightarrow>
       (\<exists>rs. fst (serial beh match s args) = Fulfils (first_bailed rs) \<and>
             map (result_of \<circ> snd) (fst (snd (serial beh match s args))) = map Fulfils rs \<and>
             called (serial beh match s args) = take (length rs) cbs \<and>
             (\<forall>r \<in> set (butlast rs). \<not> isBailed r) \<and>
             (\<not> isBailed (first_bailed rs) \<longrightarrow>
                first_bailed rs = Undefined \<and> length rs = length cbs))) \<and>
    ((\<forall>cb \<in> set cbs. \<forall>t. \<exists>v. fst (beh cb session rest t) = Inr v \<and>
                                  await v = Fulfils (results cb)) \<longrightarrow>
       fst (serial beh match s args) = Fulfils (first_bailed (map results cbs)) \<and>
       called (serial beh match s args) = upto_bailed results cbs)"
proof -
  have g: "getHooks match s name session = Inr cbs" using getHooks_own[OF own] cbs by simp
  have b: "bail beh match s args = bail_loop beh session rest cbs s"
    using sp g by (simp add: bail_def)
  have se: "serial beh match s args = serial_loop beh session rest cbs s"
    using sp g by (simp add: serial_def)
  have A: "\<exists>rs. fst (bail beh match s args) = Inr (first_bailed rs) \<and>
             map snd (fst (snd (bail beh match s args))) = map Inr rs \<and>
             called (bail beh match s args) = take (length rs) cbs \<and>
             (\<forall>r \<in> set (butlast rs). \<not> isBailed r) \<and>
             (\<not> isBailed (first_bailed rs) \<longrightarrow>
                first_bailed rs = Undefined \<and> length rs = length cbs)"
    if h: "\<forall>cb \<in> set cbs. \<forall>t. \<exists>v. fst (beh cb session rest t) = Inr v"
  proof -
    from bail_loop_total[where beh = beh and session = session and args = rest and cbs = cbs and s = s, OF h] obtain rs tr s'
      where l: "bail_loop beh session rest cbs s = (Inr (first_bailed rs), tr, s')"
        "map snd tr = map Inr rs" "map fst tr = take (length rs) cbs"
        "\<forall>r \<in> set (butlast rs). \<not> isBailed r"
        "\<not> isBailed (first_bailed rs) \<longrightarrow> length rs = length cbs" by blast
    show ?thesis
      by (rule exI[of _ rs]) (use l first_bailed_none[of rs] in \<open>simp add: b called_def\<close>)
  qed
  have B: "fst (bail beh match s args) = Inr (first_bailed (map results cbs)) \<and>
       called (bail beh match s args) = upto_bailed results cbs"
    if h: "\<forall>cb \<in> set cbs. \<forall>t. fst (beh cb session rest t) = Inr (results cb)"
    using bail_loop_results[where beh = beh and session = session and args = rest and cbs = cbs
        and results = results and s = s, OF h] by (simp add: b called_def)
  have C: "\<exists>rs. fst (serial beh match s args) = Fulfils (first_bailed rs) \<and>
             map (result_of \<circ> snd) (fst (snd (serial beh match s args))) = map Fulfils rs \<and>
             called (serial beh match s args) = take (length rs) cbs \<and>
             (\<forall>r \<in> set (butlast rs). \<not> isBailed r) \<and>
             (\<not> isBailed (first_bailed rs) \<longrightarrow>
                first_bailed rs = Undefined \<and> length rs = length cbs)"
    if h: "\<forall>cb \<in> set cbs. \<forall>t. \<exists>v r. fst (beh cb session rest t) = Inr v \<and> await v = Fulfils r"
  proof -
    from serial_loop_total[where beh = beh and session = session and args = rest and cbs = cbs and s = s, OF h] obtain rs tr s'
      where l: "serial_loop beh session rest cbs s = (Fulfils (first_bailed rs), tr, s')"
        "map (result_of \<circ> snd) tr = map Fulfils rs" "map fst tr = take (length rs) cbs"
        "\<forall>r \<in> set (butlast rs). \<not> isBailed r"
        "\<not> isBailed (first_bailed rs) \<longrightarrow> length rs = length cbs" by blast
    show ?thesis
      by (rule exI[of _ rs]) (use l first_bailed_none[of rs] in \<open>simp add: se called_def\<close>)
  qed
  have D: "fst (serial beh match s args) = Fulfils (first_bailed (map results cbs)) \<and>
       called (serial beh match s args) = upto_bailed results cbs"
    if h: "\<forall>cb \<in> set cbs. \<forall>t. \<exists>v. fst (beh cb session rest t) = Inr v \<and>
                                      await v = Fulfils (results cb)"
    using serial_loop_results[where beh = beh and session = session and args = rest and cbs = cbs
        and results = results and s = s, OF h] by (simp add: se called_def)
  from A B C D show ?thesis by blast
qed

lemma demo_returns:
  "\<forall>cb \<in> set [1, 2, 3]. \<forall>t. fst (demo_beh cb Null [] t) = Inr (demo_results cb)"
  "\<forall>cb \<in> set [1, 2, 3]. \<forall>t. \<exists>v. fst (demo_beh cb Null [] t) = Inr v \<and>
                                     await v = Fulfils (demo_results cb)"
  by (simp_all add: demo_beh_def demo_results_def)

theorem serial_bail_first_result_witness:
  "split_args [Str ''event''] = (Null, Str ''event'', []) \<and>
   \<not> inherited (to_key (Str ''event'')) \<and>
   snapshot all_match demo_bus (Str ''event'') Null = [1, 2, 3] \<and>
   map demo_results [1, 2, 3] = [Undefined, Num 5, Num 10] \<and>
   fst (bail demo_beh all_match demo_bus [Str ''event'']) = Inr (Num 5) \<and>
   called (bail demo_beh all_match demo_bus [Str ''event'']) = [1, 2] \<and>
   fst (serial demo_beh all_match demo_bus [Str ''event'']) = Fulfils (Num 5) \<and>
   called (serial demo_beh all_match demo_bus [Str ''event'']) = [1, 2]"
proof -
  note t = serial_bail_first_result [OF demo_split event_own demo_snapshot[symmetric],
      of demo_beh demo_results]
  have b: "fst (bail demo_beh all_match demo_bus [Str ''event'']) =
             Inr (first_bailed (map demo_results [1, 2, 3])) \<and>
           called (bail demo_beh all_match demo_bus [Str ''event'']) = upto_bailed demo_results [1, 2, 3]"
    by (rule t [THEN conjunct2, THEN conjunct1, THEN mp]) (rule demo_returns(1))
  have s: "fst (serial demo_beh all_match demo_bus [Str ''event'']) =
             Fulfils (first_bailed (map demo_results [1, 2, 3])) \<and>
           called (serial demo_beh all_match demo_bus [Str ''event'']) = upto_bailed demo_results [1, 2, 3]"
    by (rule t [THEN conjunct2, THEN conjunct2, THEN conjunct2, THEN mp]) (rule demo_returns(2))
  have e: "first_bailed (map demo_results [1, 2, 3]) = Num 5"
    "upto_bailed demo_results [1, 2, 3] = [1, 2]"
    "map demo_results [1, 2, 3] = [Undefined, Num 5, Num 10]"
    by (simp_all add: first_bailed_Cons demo_results_def isBailed_def)
  from b s e demo_split event_own demo_snapshot show ?thesis by simp
qed

section \<open>Parallel dispatch\<close>

lemma parallel_loop_calls:
  "parallel_loop beh session args cbs s = (res, tr, s') \<Longrightarrow>
     map fst tr = take (length tr) cbs \<and>
     (case res of
        Inl e \<Rightarrow> tr \<noteq> [] \<and> snd (last tr) = Inl e
      | Inr vs \<Rightarrow> map fst tr = cbs \<and> map snd tr = map Inr vs)"
proof (induction cbs arbitrary: s res tr s')
  case Nil
  then show ?case by auto
next
  case (Cons cb cbs)
  obtain out s1 where b: "beh cb session args s = (out, s1)" by (cases "beh cb session args s")
  show ?case
  proof (cases out)
    case (Inl e)
    with Cons.prems b show ?thesis by auto
  next
    case (Inr v)
    obtain res2 tr2 s2 where l: "parallel_loop beh session args cbs s1 = (res2, tr2, s2)"
      by (cases "parallel_loop beh session args cbs s1")
    show ?thesis
    proof (cases res2)
      case e: (Inl e)
      with Cons.prems b Inr l have eq: "res = Inl e" "tr = (cb, Inr v) # tr2" by auto
      from Cons.IH[OF l] eq e show ?thesis by (auto split: if_splits)
    next
      case vs: (Inr vs)
      with Cons.prems b Inr l have eq: "res = Inr (v # vs)" "tr = (cb, Inr v) # tr2" by auto
      from Cons.IH[OF l] eq vs show ?thesis by auto
    qed
  qed
qed



text \<open>
  When no hook throws while it is called, \<open>parallel\<close> calls every matching hook, the
  promise it returns never rejects, it stays pending exactly when the promise of one hook
  does, and every rejection of a hook's promise is logged as a warning.
\<close>

lemma parallel_without_throw:
  assumes sp: "split_args args = (session, name, rest)"
    and g: "getHooks match s name session = Inr cbs"
    and p: "parallel beh match s args = (res, tr, s')"
    and nt: "\<forall>c \<in> set tr. \<exists>v. snd c = Inr v"
  shows "map fst tr = cbs \<and>
         (\<forall>e. res \<noteq> Rejects e) \<and>
         (res = Never \<longleftrightarrow> (\<exists>c \<in> set tr. result_of (snd c) = Never)) \<and>
         (\<forall>c \<in> set tr. \<forall>e. result_of (snd c) = Rejects e \<longrightarrow> Warn [e] \<in> set (logged s'))"
proof -
  obtain r1 tr1 s1 where l: "parallel_loop beh session rest cbs s = (r1, tr1, s1)"
    by (cases "parallel_loop beh session rest cbs s")
  note c = parallel_loop_calls[OF l]
  show ?thesis
  proof (cases r1)
    case (Inl e)
    with p sp g l have t: "tr = tr1" by (simp add: parallel_def)
    from c Inl have "tr1 \<noteq> []" "snd (last tr1) = Inl e" by auto
    then have "last tr1 \<in> set tr1" "snd (last tr1) = Inl e" by simp_all
    with nt t have False by fastforce
    then show ?thesis ..
  next
    case (Inr vs)
    with p sp g l have eq: "tr = tr1"
      "res = (if \<exists>v \<in> set vs. await v = Never then Never else Fulfils Undefined)"
      "s' = s1\<lparr>logged := logged s1 @ rejections vs\<rparr>" by (auto simp: parallel_def)
    have m: "map fst tr = cbs" "map snd tr = map Inr vs"
      using c unfolding Inr eq(1) sum.case by blast+
    have "map (result_of \<circ> snd) tr = map result_of (map snd tr)" by simp
    also have "\<dots> = map result_of (map Inr vs)" using m(2) by simp
    also have "\<dots> = map await vs" by (simp add: comp_def)
    finally have rs: "map (result_of \<circ> snd) tr = map await vs" .
    have st: "(\<lambda>c. result_of (snd c)) ` set tr = await ` set vs"
    proof -
      have "set (map (result_of \<circ> snd) tr) = set (map await vs)" using rs by simp
      then show ?thesis by (simp add: comp_def)
    qed
    have n: "(\<exists>v \<in> set vs. await v = Never) \<longleftrightarrow> (\<exists>c \<in> set tr. result_of (snd c) = Never)"
    proof
      assume "\<exists>v \<in> set vs. await v = Never"
      then have "Never \<in> await ` set vs" by force
      with st have "Never \<in> (\<lambda>c. result_of (snd c)) ` set tr" by simp
      then show "\<exists>c \<in> set tr. result_of (snd c) = Never" by force
    next
      assume "\<exists>c \<in> set tr. result_of (snd c) = Never"
      then have "Never \<in> (\<lambda>c. result_of (snd c)) ` set tr" by force
      with st have "Never \<in> await ` set vs" by simp
      then show "\<exists>v \<in> set vs. await v = Never" by force
    qed
    have w: "Warn [e] \<in> set (logged s')" if "c \<in> set tr" "result_of (snd c) = Rejects e" for c e
    proof -
      from that have "Rejects e \<in> (\<lambda>c. result_of (snd c)) ` set tr" by force
      with st have "Rejects e \<in> await ` set vs" by simp
      then obtain v where "v \<in> set vs" "await v = Rejects e" by force
      then have "Warn [e] \<in> set (rejections vs)" by (force simp: rejections_def)
      with eq show ?thesis by simp
    qed
    have nr: "\<forall>e. res \<noteq> Rejects e" using eq(2) by simp
    have nv: "res = Never \<longleftrightarrow> (\<exists>c \<in> set tr. result_of (snd c) = Never)"
      using eq(2) n by simp
    from m(1) nr nv w show ?thesis by blast
  qed
qed

lemma parallel_rejected_promise_logged:
  "parallel reject_beh all_match demo_bus [Str ''event''] =
     (Fulfils Undefined,
      [(1, Inr Undefined), (2, Inr (Rejected (Error ''boom''))), (3, Inr Undefined)],
      demo_bus\<lparr>logged := [Warn [Error ''boom'']]\<rparr>)"
  by (simp add: parallel_def demo_split demo_getHooks reject_beh_def rejections_def)
     (simp add: demo_bus_def)

text \<open>
  Claim C3 fails for a hook that throws when it is called. Of the three listeners of
  \<open>'event'\<close> the second throws: the promise of \<open>parallel\<close> rejects with the error, the
  third listener is not called, and nothing is logged.
\<close>

theorem parallel_sync_throw_rejects:
  "parallel throw_beh all_match demo_bus [Str ''event''] =
     (Rejects (Error ''boom''), [(1, Inr Undefined), (2, Inl (Error ''boom''))], demo_bus) \<and>
   logged demo_bus = []"
  by (simp add: parallel_def demo_split demo_getHooks throw_beh_def) (simp add: demo_bus_def)

section \<open>Special event names\<close>

lemma flush_drained:
  assumes "flush beh tr s = Some r"
  shows "tasks (snd r) = [] \<and> (\<exists>tr2. fst r = tr @ tr2)"
proof (rule flush.raw_induct[where P = "\<lambda>beh tr s r. tasks (snd r) = [] \<and> (\<exists>tr2. fst r = tr @ tr2)",
      OF _ assms])
  fix f :: "behaviour \<Rightarrow> call list \<Rightarrow> lifecycle \<Rightarrow> (call list \<times> lifecycle) option"
    and b t s0 y
  assume IH: "\<And>tr s b y. f tr s b = Some y \<Longrightarrow> tasks (snd y) = [] \<and> (\<exists>tr2. fst y = s @ tr2)"
    and eq: "(case tasks s0 of [] \<Rightarrow> Some (t, s0)
        | ta # ts \<Rightarrow>
            case run_task b ta s0 of None \<Rightarrow> None
            | Some (tr', s') \<Rightarrow> f b (t @ tr') s') = Some y"
  show "tasks (snd y) = [] \<and> (\<exists>tr2. fst y = t @ tr2)"
  proof (cases "tasks s0")
    case Nil
    with eq show ?thesis by auto
  next
    case (Cons ta ts)
    show ?thesis
    proof (cases "run_task b ta s0")
      case None
      with eq Cons show ?thesis by simp
    next
      case (Some p)
      obtain tr1 s1 where p: "p = (tr1, s1)" by (cases p)
      with eq Cons Some have "f b (t @ tr1) s1 = Some y" by simp
      from IH[OF this] show ?thesis by auto
    qed
  qed
qed

lemma flush_settled_tasks:
  "\<forall>t \<in> set (tasks s). \<exists>v. t = Queued v \<and> await v \<noteq> Never \<Longrightarrow>
     \<exists>s'. flush beh tr s = Some (tr, s') \<and> tasks s' = [] \<and> hooks s' = hooks s \<and> isActive s' = isActive s"
proof (induction "length (tasks s)" arbitrary: s)
  case 0
  then show ?case by (subst flush.simps) simp
next
  case (Suc n)
  then obtain t ts where ts: "tasks s = t # ts" by (cases "tasks s") auto
  with Suc.prems obtain v where v: "t = Queued v" "await v \<noteq> Never" by auto
  then obtain s1 where s1: "settle_task t v s = Some s1" "tasks s1 = ts" "hooks s1 = hooks s"
     "isActive s1 = isActive s"
    using ts by (cases "await v") (auto simp: settle_task_def)
  then have r: "run_task beh t s = Some ([], s1)" using v by (simp add: run_task_def)
  have "n = length (tasks s1)" using Suc.hyps(2) ts s1 by simp
  moreover have "\<forall>t \<in> set (tasks s1). \<exists>v. t = Queued v \<and> await v \<noteq> Never"
    using Suc.prems ts s1 by simp
  ultimately obtain s' where "flush beh tr s1 = Some (tr, s')" "tasks s' = []" "hooks s' = hooks s1"
    "isActive s' = isActive s1"
    using Suc.hyps(1) by blast
  then show ?case using ts r s1 by (subst flush.simps) simp
qed

lemma ready_loop_calls:
  "ready_loop beh cbs s = (res, tr, s') \<Longrightarrow>
     map fst tr = take (length tr) cbs \<and> (res = Inr () \<longrightarrow> map fst tr = cbs)"
proof (induction cbs arbitrary: s res tr s')
  case Nil
  then show ?case by auto
next
  case (Cons cb cbs)
  obtain out s1 where b: "beh cb Undefined [] s = (out, s1)" by (cases "beh cb Undefined [] s")
  show ?case
  proof (cases out)
    case (Inl e)
    with Cons.prems b show ?thesis by auto
  next
    case (Inr v)
    obtain res2 tr2 s2 where l: "ready_loop beh cbs (queue s1 (Queued v)) = (res2, tr2, s2)"
      by (cases "ready_loop beh cbs (queue s1 (Queued v))")
    with Cons.prems b Inr have eq: "res = res2" "tr = (cb, Inr v) # tr2" by auto
    from Cons.IH[OF l] eq show ?thesis by auto
  qed
qed

lemma ready_own: "\<not> inherited (to_key (Str ''ready''))"
  by (simp add: inherited_def object_prototype_def)

lemma start_sync_calls:
  assumes "start_sync beh match s = (Inr (), tr, s2)"
  shows "map fst tr = snapshot match s (Str ''ready'') Undefined"
proof -
  let ?s2 = "s\<lparr>isActive := True, logged := logged s @ [Debug [Str ''started'']]\<rparr>"
  have g: "getHooks match ?s2 (Str ''ready'') Undefined = Inr (snapshot match s (Str ''ready'') Undefined)"
    using getHooks_own[OF ready_own, of match s Undefined]
    by (simp add: getHooks_def hooks_slot_def snapshot_def)
  obtain res tr1 s3
    where l: "ready_loop beh (snapshot match s (Str ''ready'') Undefined) ?s2 = (res, tr1, s3)"
    by (cases "ready_loop beh (snapshot match s (Str ''ready'') Undefined) ?s2")
  with assms g have "res = Inr ()" "tr1 = tr"
    by (auto simp: start_sync_def Let_def split: sum.splits)
  with ready_loop_calls[OF l] show ?thesis by blast
qed

lemma only_queues_tasks:
  "only_queues beh \<Longrightarrow> beh l session args s = (out, s') \<Longrightarrow> \<exists>new. tasks s' = tasks s @ new"
  unfolding only_queues_def by (metis snd_conv)

lemma run_task_keeps:
  assumes oq: "only_queues beh"
    and r: "run_task beh t s = Some (tr1, s1)"
    and hd: "tasks s = t # ts"
  shows "\<exists>new. tasks s1 = ts @ new"
proof (cases t)
  case (Queued v)
  with r hd show ?thesis
    by (cases "await v") (auto simp: run_task_def settle_task_def)
next
  case (Deferred l)
  obtain out s' where b: "beh l Undefined [] s = (out, s')" by (cases "beh l Undefined [] s")
  from only_queues_tasks[OF oq b] hd obtain new where n: "tasks s' = (t # ts) @ new" by auto
  show ?thesis
  proof (cases out)
    case (Inl e)
    with r b Deferred n show ?thesis by (auto simp: run_task_def)
  next
    case (Inr v)
    with r b Deferred n show ?thesis
      by (cases "await v") (auto simp: run_task_def settle_task_def)
  qed
qed

text \<open>
  \<open>flush\<close> waits: with a task in the queue that never settles it never ends, and a deferred
  listener in the queue has been called when it ends.
\<close>

lemma flush_waits_aux:
  assumes "flush beh tr s = Some r"
  shows "only_queues beh \<longrightarrow> (\<forall>v. Queued v \<in> set (tasks s) \<longrightarrow> await v \<noteq> Never)"
proof (rule flush.raw_induct[where P = "\<lambda>beh tr s r. only_queues beh \<longrightarrow>
      (\<forall>v. Queued v \<in> set (tasks s) \<longrightarrow> await v \<noteq> Never)", OF _ assms])
  fix f :: "behaviour \<Rightarrow> call list \<Rightarrow> lifecycle \<Rightarrow> (call list \<times> lifecycle) option"
    and b t s0 y
  assume IH: "\<And>tr s b y. f tr s b = Some y \<Longrightarrow>
      only_queues tr \<longrightarrow> (\<forall>v. Queued v \<in> set (tasks b) \<longrightarrow> await v \<noteq> Never)"
    and eq: "(case tasks s0 of [] \<Rightarrow> Some (t, s0)
        | ta # ts \<Rightarrow>
            case run_task b ta s0 of None \<Rightarrow> None
            | Some (tr', s') \<Rightarrow> f b (t @ tr') s') = Some y"
  show "only_queues b \<longrightarrow> (\<forall>v. Queued v \<in> set (tasks s0) \<longrightarrow> await v \<noteq> Never)"
  proof (intro impI allI)
    fix v
    assume oq: "only_queues b" and q: "Queued v \<in> set (tasks s0)"
    then obtain ta ts where hd: "tasks s0 = ta # ts" by (cases "tasks s0") auto
    with eq obtain tr1 s1 where r: "run_task b ta s0 = Some (tr1, s1)"
      and n: "f b (t @ tr1) s1 = Some y"
      by (cases "run_task b ta s0") auto
    show "await v \<noteq> Never"
    proof (cases "ta = Queued v")
      case True
      with r show ?thesis by (auto simp: run_task_def settle_task_def split: settled.splits)
    next
      case False
      from run_task_keeps[OF oq r hd] obtain new where "tasks s1 = ts @ new" by blast
      with q hd False have "Queued v \<in> set (tasks s1)" by auto
      with IH[OF n] oq show ?thesis by blast
    qed
  qed
qed

lemma flush_waits:
  "only_queues beh \<Longrightarrow> Queued v \<in> set (tasks s) \<Longrightarrow> await v = Never \<Longrightarrow> flush beh tr s = None"
  using flush_waits_aux[of beh tr s] by (cases "flush beh tr s") auto

lemma flush_calls_deferred_aux:
  assumes "flush beh tr s = Some r"
  shows "(\<exists>tr2. fst r = tr @ tr2) \<and>
         (only_queues beh \<longrightarrow> (\<forall>l. Deferred l \<in> set (tasks s) \<longrightarrow> l \<in> fst ` set (drop (length tr) (fst r))))"
proof (rule flush.raw_induct[where P = "\<lambda>beh tr s r. (\<exists>tr2. fst r = tr @ tr2) \<and>
      (only_queues beh \<longrightarrow>
         (\<forall>l. Deferred l \<in> set (tasks s) \<longrightarrow> l \<in> fst ` set (drop (length tr) (fst r))))",
      OF _ assms])
  fix f :: "behaviour \<Rightarrow> call list \<Rightarrow> lifecycle \<Rightarrow> (call list \<times> lifecycle) option"
    and b t s0 y
  assume IH: "\<And>tr s b y. f tr s b = Some y \<Longrightarrow> (\<exists>tr2. fst y = s @ tr2) \<and>
      (only_queues tr \<longrightarrow>
         (\<forall>l. Deferred l \<in> set (tasks b) \<longrightarrow> l \<in> fst ` set (drop (length s) (fst y))))"
    and eq: "(case tasks s0 of [] \<Rightarrow> Some (t, s0)
        | ta # ts \<Rightarrow>
            case run_task b ta s0 of None \<Rightarrow> None
            | Some (tr', s') \<Rightarrow> f b (t @ tr') s') = Some y"
  show "(\<exists>tr2. fst y = t @ tr2) \<and>
      (only_queues b \<longrightarrow>
         (\<forall>l. Deferred l \<in> set (tasks s0) \<longrightarrow> l \<in> fst ` set (drop (length t) (fst y))))"
  proof (cases "tasks s0")
    case Nil
    with eq show ?thesis by auto
  next
    case (Cons ta ts)
    with eq obtain tr1 s1 where r: "run_task b ta s0 = Some (tr1, s1)"
      and n: "f b (t @ tr1) s1 = Some y"
      by (cases "run_task b ta s0") auto
    from IH[OF n] obtain tr2 where p: "fst y = (t @ tr1) @ tr2"
      and d: "only_queues b \<longrightarrow>
         (\<forall>l. Deferred l \<in> set (tasks s1) \<longrightarrow> l \<in> fst ` set (drop (length (t @ tr1)) (fst y)))"
      by blast
    have dr: "drop (length t) (fst y) = tr1 @ tr2" using p by simp
    have "l \<in> fst ` set (drop (length t) (fst y))"
      if oq: "only_queues b" and q: "Deferred l \<in> set (tasks s0)" for l
    proof (cases "ta = Deferred l")
      case True
      with r have "l \<in> fst ` set tr1"
        by (auto simp: run_task_def settle_task_def split: prod.splits sum.splits settled.splits)
      then show ?thesis using dr by auto
    next
      case False
      from run_task_keeps[OF oq r Cons] obtain new where "tasks s1 = ts @ new" by blast
      with q Cons False have "Deferred l \<in> set (tasks s1)" by auto
      with d oq have "l \<in> fst ` set (drop (length (t @ tr1)) (fst y))" by blast
      then show ?thesis using p by auto
    qed
    with p show ?thesis by auto
  qed
qed

lemma ready_loop_queues:
  assumes oq: "only_queues beh"
    and l: "ready_loop beh cbs s = (res, tr, s')"
  shows "set (tasks s) \<subseteq> set (tasks s') \<and>
         (\<forall>cb v. (cb, Inr v) \<in> set tr \<longrightarrow> Queued v \<in> set (tasks s'))"
  using l
proof (induction cbs arbitrary: s res tr s')
  case Nil
  then show ?case by auto
next
  case (Cons cb cbs)
  obtain out s1 where b: "beh cb Undefined [] s = (out, s1)" by (cases "beh cb Undefined [] s")
  from only_queues_tasks[OF oq b] obtain new where n: "tasks s1 = tasks s @ new" by blast
  show ?case
  proof (cases out)
    case (Inl e)
    with Cons.prems b n show ?thesis by auto
  next
    case (Inr v)
    obtain res2 tr2 s2 where l2: "ready_loop beh cbs (queue s1 (Queued v)) = (res2, tr2, s2)"
      by (cases "ready_loop beh cbs (queue s1 (Queued v))")
    with Cons.prems b Inr have eq: "res = res2" "tr = (cb, Inr v) # tr2" "s' = s2" by auto
    from Cons.IH[OF l2] have ih: "set (tasks (queue s1 (Queued v))) \<subseteq> set (tasks s2)"
      "\<forall>cb v. (cb, Inr v) \<in> set tr2 \<longrightarrow> Queued v \<in> set (tasks s2)" by blast+
    have "Queued v \<in> set (tasks s2)" using ih(1) by (auto simp: queue_def)
    moreover have "set (tasks s) \<subseteq> set (tasks s2)" using ih(1) n by (auto simp: queue_def)
    ultimately show ?thesis using eq ih(2) by auto
  qed
qed

text \<open>
  When no \<open>'ready'\<close> listener throws while \<open>start\<close> calls it. On a bus that is not active,
  \<open>on\<close> for \<open>'ready'\<close> puts the listener in the hook table and queues no task (\<open>on\<close> calls
  no listener at all), and \<open>start\<close> calls every listener of the table whose context matches.
  On an active bus \<open>on\<close> queues the deferred call and leaves the table. When the promise
  of \<open>start\<close> fulfils the task queue is empty, and it does fulfil when the tasks left by the
  loop are values or promises that settle; it never settles when a listener returned a
  promise that never does; and the deferred listeners of the queue have been called when
  \<open>flush\<close> ends.
\<close>

lemma ready_listeners_without_throw:
  "(\<not> isActive s \<longrightarrow>
      fst (on caller s (Str ''ready'') l prepend) = Inr (Dispose (Str ''ready'') l) \<and>
      tasks (snd (on caller s (Str ''ready'') l prepend)) = tasks s \<and>
      hooks (snd (on caller s (Str ''ready'') l prepend)) (KStr ''ready'') =
        Some (if prepend then (caller, l) # (case hooks s (KStr ''ready'') of None \<Rightarrow> [] | Some hs \<Rightarrow> hs)
              else (case hooks s (KStr ''ready'') of None \<Rightarrow> [] | Some hs \<Rightarrow> hs) @ [(caller, l)])) \<and>
   (hooks s (KStr ''ready'') = Some hs \<and> (c, l) \<in> set hs \<and> match c Undefined \<and>
      start_sync beh match s = (Inr (), tr, s2) \<longrightarrow> l \<in> fst ` set tr) \<and>
   (isActive s \<longrightarrow>
      on caller s (Str ''ready'') l prepend = (Inr ReturnFalse, s\<lparr>tasks := tasks s @ [Deferred l]\<rparr>)) \<and>
   (start beh match s = Some (Fulfils v, tr', s') \<longrightarrow> tasks s' = []) \<and>
   (start_sync beh match s = (Inr (), tr, s2) \<and>
      (\<forall>t \<in> set (tasks s2). \<exists>w. t = Queued w \<and> await w \<noteq> Never) \<longrightarrow>
      (\<exists>s3. start beh match s = Some (Fulfils Undefined, tr, s3) \<and> tasks s3 = [])) \<and>
   (only_queues beh \<and> start_sync beh match s = (Inr (), tr, s2) \<and>
      (cb, Inr w) \<in> set tr \<and> await w = Never \<longrightarrow> start beh match s = None) \<and>
   (only_queues beh \<and> Deferred l \<in> set (tasks s) \<and> flush beh tr s = Some (tr', s') \<longrightarrow>
      l \<in> fst ` set (drop (length tr) tr'))"
proof -
  have a: "\<not> isActive s \<Longrightarrow>
      fst (on caller s (Str ''ready'') l prepend) = Inr (Dispose (Str ''ready'') l) \<and>
      tasks (snd (on caller s (Str ''ready'') l prepend)) = tasks s \<and>
      hooks (snd (on caller s (Str ''ready'') l prepend)) (KStr ''ready'') =
        Some (if prepend then (caller, l) # (case hooks s (KStr ''ready'') of None \<Rightarrow> [] | Some hs \<Rightarrow> hs)
              else (case hooks s (KStr ''ready'') of None \<Rightarrow> [] | Some hs \<Rightarrow> hs) @ [(caller, l)])"
    by (auto simp: on_def Let_def hooks_slot_own[OF ready_own] warn_max_def split: option.splits)
  have b: "l \<in> fst ` set tr"
    if "hooks s (KStr ''ready'') = Some hs" "(c, l) \<in> set hs" "match c Undefined"
      "start_sync beh match s = (Inr (), tr, s2)"
  proof -
    from that(1-3) have "l \<in> set (snapshot match s (Str ''ready'') Undefined)"
      by (force simp: snapshot_def getHooks_def hooks_slot_def)
    with start_sync_calls[OF that(4)] show ?thesis by (metis set_map)
  qed
  have c: "isActive s \<Longrightarrow>
      on caller s (Str ''ready'') l prepend = (Inr ReturnFalse, s\<lparr>tasks := tasks s @ [Deferred l]\<rparr>)"
    by (simp add: on_def queue_def)
  have d: "tasks s' = []" if st: "start beh match s = Some (Fulfils v, tr', s')"
  proof -
    obtain res tr0 s0 where sy: "start_sync beh match s = (res, tr0, s0)"
      by (cases "start_sync beh match s")
    with st obtain u where "res = Inr u" by (cases res) (auto simp: start_def)
    with st sy have "flush beh tr0 s0 = Some (tr', s')" by (auto simp: start_def)
    from flush_drained[OF this] show ?thesis by simp
  qed
  have e: "\<exists>s3. start beh match s = Some (Fulfils Undefined, tr, s3) \<and> tasks s3 = []"
    if "start_sync beh match s = (Inr (), tr, s2)"
      "\<forall>t \<in> set (tasks s2). \<exists>w. t = Queued w \<and> await w \<noteq> Never"
  proof -
    from flush_settled_tasks[OF that(2), of beh tr]
    obtain s3 where "flush beh tr s2 = Some (tr, s3)" "tasks s3 = []" by blast
    with that(1) show ?thesis by (simp add: start_def)
  qed
  have f: "start beh match s = None"
    if oq: "only_queues beh" and sy: "start_sync beh match s = (Inr (), tr, s2)"
      and q: "(cb, Inr w) \<in> set tr" and nv: "await w = Never"
  proof -
    let ?s2 = "s\<lparr>isActive := True, logged := logged s @ [Debug [Str ''started'']]\<rparr>"
    obtain cbs where g: "getHooks match ?s2 (Str ''ready'') Undefined = Inr cbs"
      using sy by (cases "getHooks match ?s2 (Str ''ready'') Undefined")
        (auto simp: start_sync_def Let_def)
    obtain res tr1 s3 where l: "ready_loop beh cbs ?s2 = (res, tr1, s3)"
      by (cases "ready_loop beh cbs ?s2")
    with sy g have eq: "tr1 = tr" "tasks s2 = tasks s3"
      by (auto simp: start_sync_def Let_def split: sum.splits)
    from ready_loop_queues[OF oq l] q eq have "Queued w \<in> set (tasks s2)" by auto
    from flush_waits[OF oq this nv] sy show ?thesis by (simp add: start_def)
  qed
  have g: "l \<in> fst ` set (drop (length tr) tr')"
    if "only_queues beh" "Deferred l \<in> set (tasks s)" "flush beh tr s = Some (tr', s')"
    using flush_calls_deferred_aux[OF that(3)] that(1,2) by simp
  from a b c d e f g show ?thesis by blast
qed

text \<open>
  An example: listener 7 is registered for \<open>'ready'\<close> before the start and registers
  listener 8 while it runs, on the bus then active. \<open>start\<close> calls 7, the flush calls 8, and
  the promise fulfils with the queue empty and no entry for \<open>'ready'\<close> in the hook table.
\<close>

lemma waiting_bus_start:
  "map_option (\<lambda>(r, tr, s). (r, tr, isActive s, tasks s, hooks s (KStr ''ready'')))
     (start ready_beh all_match waiting_bus) =
   Some (Fulfils Undefined, [(7, Inr Undefined), (8, Inr Undefined)], True, [], None)"
  by code_simp

text \<open>
  Claim C7 fails when a \<open>'ready'\<close> listener throws while \<open>start\<close> calls it: \<open>callback()\<close>
  of line 186 is evaluated in the loop, outside the \<open>catch\<close> that \<open>queue\<close> installs. Of the
  three listeners registered for \<open>'ready'\<close> before the start, the second throws: the promise
  of \<open>start\<close> rejects with the error, the third listener is not called, the listeners stay
  in the hook table of the bus, now active, and the queue is not flushed.
\<close>

theorem start_ready_throw_rejects:
  "map_option (\<lambda>(r, tr, s). (r, tr, isActive s, hooks s (KStr ''ready''), tasks s, logged s))
     (start throw_beh all_match ready_bus) =
   Some (Rejects (Error ''boom''), [(1, Inr Undefined), (2, Inl (Error ''boom''))], True,
         Some [(0, 1), (0, 2), (0, 3)], [Queued Undefined], [Debug [Str ''started'']])"
  by (simp add: start_def start_sync_def Let_def getHooks_def hooks_slot_def ready_bus_def
      ready_hooks_def all_match_def throw_beh_def queue_def)

lemma digits_chars: "digits n \<noteq> [] \<and> set (digits n) \<subseteq> set ''0123456789''"
proof (induction n rule: digits.induct)
  case (1 n)
  have m: "''0123456789'' ! k \<in> set ''0123456789''" if "k < 10" for k
    using that by (intro nth_mem) simp
  show ?case
  proof (cases "n < 10")
    case True
    then show ?thesis using m[of n] by (subst (1 2) digits.simps) simp
  next
    case False
    with 1 have ih: "digits (n div 10) \<noteq> [] \<and> set (digits (n div 10)) \<subseteq> set ''0123456789''"
      by simp
    have "n mod 10 < 10" by simp
    from m[OF this] ih False show ?thesis by (subst (1 2) digits.simps) auto
  qed
qed

lemma decimal_not_word: "CHR ''d'' \<in> set w \<Longrightarrow> decimal n \<noteq> w"
proof
  assume d: "CHR ''d'' \<in> set w" and e: "decimal n = w"
  show False
  proof (cases "n < 0")
    case True
    with e d have "CHR ''d'' \<in> set (digits (nat (- n)))" by (auto simp: decimal_def)
    with digits_chars[of "nat (- n)"] show False by auto
  next
    case False
    with e d have "CHR ''d'' \<in> set (digits (nat n))" by (auto simp: decimal_def)
    with digits_chars[of "nat n"] show False by auto
  qed
qed

lemma to_key_dispose: "to_key name = KStr ''dispose'' \<longleftrightarrow> name = Str ''dispose''"
  using decimal_not_word[of "''dispose''"] by (cases name) (auto split: if_splits)

lemma dispose_own: "\<not> inherited (KStr ''dispose'')"
  by (simp add: inherited_def object_prototype_def)

text \<open>
  Claim C8. \<open>on\<close> for \<open>'dispose'\<close> adds the listener to the disposables of the calling
  context, at the end or with \<open>prepend\<close> at the front, and changes nothing else; the hook
  table is the same for every name. Whatever the name, \<open>on\<close> leaves the entry of
  \<open>'dispose'\<close> in the hook table as it was.
\<close>

theorem dispose_listener_redirected:
  "on caller s (Str ''dispose'') l prepend =
     (Inr (RemoveDisposable l),
      s\<lparr>disposables := (disposables s)(caller :=
           (if prepend then Listener l # disposables s caller
            else disposables s caller @ [Listener l]))\<rparr>) \<and>
   hooks (snd (on caller s (Str ''dispose'') l prepend)) = hooks s \<and>
   hooks (snd (on caller s name l prepend)) (KStr ''dispose'') = hooks s (KStr ''dispose'')"
proof -
  have a: "on caller s (Str ''dispose'') l prepend =
     (Inr (RemoveDisposable l),
      s\<lparr>disposables := (disposables s)(caller :=
           (if prepend then Listener l # disposables s caller
            else disposables s caller @ [Listener l]))\<rparr>)"
    by (simp add: on_def)
  have b: "hooks (snd (on caller s name l prepend)) (KStr ''dispose'') = hooks s (KStr ''dispose'')"
  proof (cases "name = Str ''dispose''")
    case True
    then show ?thesis by (simp add: a)
  next
    case False
    then have "to_key name \<noteq> KStr ''dispose''" by (simp add: to_key_dispose)
    then show ?thesis
      by (auto simp: on_def queue_def Let_def warn_max_def split: slot.splits option.splits)
  qed
  from a b show ?thesis by simp
qed

theorem dispose_listener_redirected_witness:
  "on 0 demo_bus (Str ''dispose'') 9 True =
     (Inr (RemoveDisposable 9), demo_bus\<lparr>disposables := (disposables demo_bus)(0 := [Listener 9])\<rparr>) \<and>
   hooks (snd (on 0 demo_bus (Str ''dispose'') 9 True)) (KStr ''dispose'') = None \<and>
   hooks (snd (on 0 demo_bus (Str ''event'') 9 True)) (KStr ''dispose'') = None"
  using dispose_listener_redirected [of 0 demo_bus 9 True "Str ''event''"]
  by (simp add: demo_bus_def demo_hooks_def)

section \<open>The hooks a dispatch runs over\<close>

lemma prefix_of_take: "prefix_of (take n ys) ys"
proof (induction ys arbitrary: n)
  case Nil
  then show ?case by simp
next
  case (Cons y ys)
  then show ?case by (cases n) simp_all
qed

lemma prefix_of_take_eq: "xs = take n ys \<Longrightarrow> prefix_of xs ys"
  by (simp add: prefix_of_take)

lemma chain_loop_calls:
  "chain_loop beh session args cbs s = (res, tr, s') \<Longrightarrow>
     map fst tr = take (length tr) cbs \<and> ((\<exists>v. res = Inr v) \<longrightarrow> length tr = length cbs)"
proof (induction cbs arbitrary: args s res tr s')
  case Nil
  then show ?case by auto
next
  case (Cons cb cbs)
  obtain out s1 where b: "beh cb session args s = (out, s1)" by (cases "beh cb session args s")
  show ?case
  proof (cases out)
    case (Inl e)
    with Cons.prems b show ?thesis by auto
  next
    case (Inr r)
    obtain res2 tr2 s2 where l: "chain_loop beh session (set_first r args) cbs s1 = (res2, tr2, s2)"
      by (cases "chain_loop beh session (set_first r args) cbs s1")
    with Cons.prems b Inr have eq: "res = res2" "tr = (cb, Inr r) # tr2" by auto
    from Cons.IH[OF l] eq show ?thesis by auto
  qed
qed

lemma waterfall_loop_calls:
  "waterfall_loop beh session args cbs s = (res, tr, s') \<Longrightarrow>
     map fst tr = take (length tr) cbs \<and> ((\<exists>v. res = Fulfils v) \<longrightarrow> length tr = length cbs)"
proof (induction cbs arbitrary: args s res tr s')
  case Nil
  then show ?case by auto
next
  case (Cons cb cbs)
  obtain out s1 where b: "beh cb session args s = (out, s1)" by (cases "beh cb session args s")
  show ?case
  proof (cases out)
    case (Inl e)
    with Cons.prems b show ?thesis by auto
  next
    case (Inr w)
    show ?thesis
    proof (cases "await w")
      case (Rejects e)
      with Cons.prems b Inr have "res = Rejects e" "tr = [(cb, Inr w)]" by auto
      then show ?thesis by simp
    next
      case Never
      with Cons.prems b Inr have "res = Never" "tr = [(cb, Inr w)]" by auto
      then show ?thesis by simp
    next
      case (Fulfils r)
      obtain res2 tr2 s2
        where l: "waterfall_loop beh session (set_first r args) cbs s1 = (res2, tr2, s2)"
        by (cases "waterfall_loop beh session (set_first r args) cbs s1")
      with Cons.prems b Inr Fulfils have eq: "res = res2" "tr = (cb, Inr w) # tr2" by auto
      from Cons.IH[OF l] eq show ?thesis by auto
    qed
  qed
qed

lemma snapshot_Inr: "getHooks match s name session = Inr cbs \<Longrightarrow> snapshot match s name session = cbs"
  by (simp add: snapshot_def)

lemma snapshot_Inl: "getHooks match s name session = Inl e \<Longrightarrow> snapshot match s name session = []"
  by (simp add: snapshot_def)

lemma chain_hooks_calls:
  assumes "split_args args = (session, name, rest)"
  shows "prefix_of (called (chain_hooks beh match s args)) (snapshot match s name session)"
    and "chain_hooks beh match s args = (Inr v, tr, s') \<Longrightarrow> map fst tr = snapshot match s name session"
proof -
  have "prefix_of (called (chain_hooks beh match s args)) (snapshot match s name session) \<and>
        (chain_hooks beh match s args = (Inr v, tr, s') \<longrightarrow> map fst tr = snapshot match s name session)"
  proof (cases "getHooks match s name session")
    case (Inl e)
    with assms show ?thesis by (simp add: chain_hooks_def called_def)
  next
    case (Inr cbs)
    obtain res tr0 s0 where c: "chain_loop beh session rest cbs s = (res, tr0, s0)"
      by (cases "chain_loop beh session rest cbs s")
    then have e: "chain_hooks beh match s args = (res, tr0, s0)"
      using assms Inr by (simp add: chain_hooks_def)
    from chain_loop_calls[OF c] have t: "map fst tr0 = take (length tr0) cbs"
      and f: "(\<exists>v. res = Inr v) \<longrightarrow> length tr0 = length cbs" by blast+
    from t have "prefix_of (called (chain_hooks beh match s args)) cbs"
      unfolding e called_def by (simp add: prefix_of_take_eq)
    moreover have "map fst tr = cbs" if "chain_hooks beh match s args = (Inr v, tr, s')"
    proof -
      from that e have "res = Inr v" "tr0 = tr" by simp_all
      with t f show ?thesis by simp
    qed
    ultimately show ?thesis by (simp add: snapshot_Inr[OF Inr])
  qed
  then show "prefix_of (called (chain_hooks beh match s args)) (snapshot match s name session)"
    and "chain_hooks beh match s args = (Inr v, tr, s') \<Longrightarrow> map fst tr = snapshot match s name session"
    by blast+
qed

lemma bail_calls:
  assumes "split_args args = (session, name, rest)"
  shows "prefix_of (called (bail beh match s args)) (snapshot match s name session)"
proof (cases "getHooks match s name session")
  case (Inl e)
  with assms show ?thesis by (simp add: bail_def called_def)
next
  case (Inr cbs)
  obtain res tr0 s0 where c: "bail_loop beh session rest cbs s = (res, tr0, s0)"
    by (cases "bail_loop beh session rest cbs s")
  then have e: "bail beh match s args = (res, tr0, s0)" using assms Inr by (simp add: bail_def)
  from bail_loop_calls[OF c] have "map fst tr0 = take (length tr0) cbs" by blast
  then show ?thesis unfolding e called_def snapshot_Inr[OF Inr] by (simp add: prefix_of_take_eq)
qed

lemma serial_calls:
  assumes "split_args args = (session, name, rest)"
  shows "prefix_of (called (serial beh match s args)) (snapshot match s name session)"
proof (cases "getHooks match s name session")
  case (Inl e)
  with assms show ?thesis by (simp add: serial_def called_def)
next
  case (Inr cbs)
  obtain res tr0 s0 where c: "serial_loop beh session rest cbs s = (res, tr0, s0)"
    by (cases "serial_loop beh session rest cbs s")
  then have e: "serial beh match s args = (res, tr0, s0)" using assms Inr by (simp add: serial_def)
  from serial_loop_calls[OF c] have "map fst tr0 = take (length tr0) cbs" by blast
  then show ?thesis unfolding e called_def snapshot_Inr[OF Inr] by (simp add: prefix_of_take_eq)
qed

lemma waterfall_calls:
  assumes "split_args args = (session, name, rest)"
  shows "prefix_of (called (waterfall beh match s args)) (snapshot match s name session)"
    and "waterfall beh match s args = (Fulfils v, tr, s') \<Longrightarrow> map fst tr = snapshot match s name session"
proof -
  have "prefix_of (called (waterfall beh match s args)) (snapshot match s name session) \<and>
        (waterfall beh match s args = (Fulfils v, tr, s') \<longrightarrow> map fst tr = snapshot match s name session)"
  proof (cases "getHooks match s name session")
    case (Inl e)
    with assms show ?thesis by (simp add: waterfall_def called_def)
  next
    case (Inr cbs)
    obtain res tr0 s0 where c: "waterfall_loop beh session rest cbs s = (res, tr0, s0)"
      by (cases "waterfall_loop beh session rest cbs s")
    then have e: "waterfall beh match s args = (res, tr0, s0)"
      using assms Inr by (simp add: waterfall_def)
    from waterfall_loop_calls[OF c] have t: "map fst tr0 = take (length tr0) cbs"
      and f: "(\<exists>v. res = Fulfils v) \<longrightarrow> length tr0 = length cbs" by blast+
    from t have "prefix_of (called (waterfall beh match s args)) cbs"
      unfolding e called_def by (simp add: prefix_of_take_eq)
    moreover have "map fst tr = cbs" if "waterfall beh match s args = (Fulfils v, tr, s')"
    proof -
      from that e have "res = Fulfils v" "tr0 = tr" by simp_all
      with t f show ?thesis by simp
    qed
    ultimately show ?thesis by (simp add: snapshot_Inr[OF Inr])
  qed
  then show "prefix_of (called (waterfall beh match s args)) (snapshot match s name session)"
    and "waterfall beh match s args = (Fulfils v, tr, s') \<Longrightarrow> map fst tr = snapshot match s name session"
    by blast+
qed

lemma parallel_calls:
  assumes "split_args args = (session, name, rest)"
  shows "prefix_of (called (parallel beh match s args)) (snapshot match s name session)"
    and "parallel beh match s args = (res, tr, s') \<Longrightarrow> (\<forall>e. res \<noteq> Rejects e) \<Longrightarrow>
           map fst tr = snapshot match s name session"
proof -
  have "prefix_of (called (parallel beh match s args)) (snapshot match s name session) \<and>
        (parallel beh match s args = (res, tr, s') \<longrightarrow> (\<forall>e. res \<noteq> Rejects e) \<longrightarrow>
           map fst tr = snapshot match s name session)"
  proof (cases "getHooks match s name session")
    case (Inl e)
    with assms show ?thesis by (auto simp: parallel_def called_def)
  next
    case g: (Inr cbs)
    obtain r1 tr0 s0 where c: "parallel_loop beh session rest cbs s = (r1, tr0, s0)"
      by (cases "parallel_loop beh session rest cbs s")
    from parallel_loop_calls[OF c] have t: "map fst tr0 = take (length tr0) cbs" by blast
    have e: "fst (snd (parallel beh match s args)) = tr0"
      using assms c g by (cases r1) (simp_all add: parallel_def)
    from t have "prefix_of (called (parallel beh match s args)) cbs"
      unfolding called_def e by (simp add: prefix_of_take_eq)
    moreover have "map fst tr = cbs"
      if p: "parallel beh match s args = (res, tr, s')" and nr: "\<forall>e. res \<noteq> Rejects e"
    proof (cases r1)
      case (Inl x)
      with p assms c g have "res = Rejects x" by (simp add: parallel_def)
      with nr show ?thesis by simp
    next
      case (Inr vs)
      from p e have "tr0 = tr" by simp
      with parallel_loop_calls[OF c] show ?thesis unfolding Inr sum.case by blast
    qed
    ultimately show ?thesis by (simp add: snapshot_Inr[OF g])
  qed
  then show "prefix_of (called (parallel beh match s args)) (snapshot match s name session)"
    and "parallel beh match s args = (res, tr, s') \<Longrightarrow> (\<forall>e. res \<noteq> Rejects e) \<Longrightarrow>
           map fst tr = snapshot match s name session"
    by blast+
qed

text \<open>
  Claim C10. Whatever the listeners do to the bus while they run, the listeners a dispatch
  calls are an initial segment of the matching hooks of the table as it was when the
  dispatch began, and all of them when the dispatch is not cut short by a throw, a
  rejection or a bailed result.
\<close>

theorem dispatch_iterates_snapshot:
  assumes "split_args args = (session, name, rest)"
  shows "prefix_of (called (parallel beh match s args)) (snapshot match s name session) \<and>
         prefix_of (called (serial beh match s args)) (snapshot match s name session) \<and>
         prefix_of (called (bail beh match s args)) (snapshot match s name session) \<and>
         prefix_of (called (chain_hooks beh match s args)) (snapshot match s name session) \<and>
         prefix_of (called (waterfall beh match s args)) (snapshot match s name session) \<and>
         ((\<forall>e. fst (parallel beh match s args) \<noteq> Rejects e) \<longrightarrow>
            called (parallel beh match s args) = snapshot match s name session) \<and>
         ((\<exists>v. fst (chain_hooks beh match s args) = Inr v) \<longrightarrow>
            called (chain_hooks beh match s args) = snapshot match s name session) \<and>
         ((\<exists>v. fst (waterfall beh match s args) = Fulfils v) \<longrightarrow>
            called (waterfall beh match s args) = snapshot match s name session)"
proof -
  have p: "called (parallel beh match s args) = snapshot match s name session"
    if "\<forall>e. fst (parallel beh match s args) \<noteq> Rejects e"
    using parallel_calls(2)[OF assms, of beh match s "fst (parallel beh match s args)"
        "fst (snd (parallel beh match s args))" "snd (snd (parallel beh match s args))"] that
    by (simp add: called_def)
  have c: "called (chain_hooks beh match s args) = snapshot match s name session"
    if "fst (chain_hooks beh match s args) = Inr v" for v
    using chain_hooks_calls(2)[OF assms, of beh match s v
        "fst (snd (chain_hooks beh match s args))" "snd (snd (chain_hooks beh match s args))"] that
    by (metis called_def prod.collapse)
  have w: "called (waterfall beh match s args) = snapshot match s name session"
    if "fst (waterfall beh match s args) = Fulfils v" for v
    using waterfall_calls(2)[OF assms, of beh match s v
        "fst (snd (waterfall beh match s args))" "snd (snd (waterfall beh match s args))"] that
    by (metis called_def prod.collapse)
  from p c w parallel_calls(1)[OF assms] serial_calls[OF assms] bail_calls[OF assms]
    chain_hooks_calls(1)[OF assms] waterfall_calls(1)[OF assms]
  show ?thesis by blast
qed

lemma mut_first:
  "called (chain_hooks mut_beh all_match demo_bus [Str ''event'']) = [1, 2, 3] \<and>
   hooks (snd (snd (chain_hooks mut_beh all_match demo_bus [Str ''event'']))) (KStr ''event'') =
     Some [(0, 1), (0, 2), (0, 4)]"
  by (simp add: called_def chain_hooks_def demo_split getHooks_def hooks_slot_def all_match_def
      mut_beh_def on_def off_def Let_def demo_bus_def demo_hooks_def set_first_def)

lemma mut_second:
  "called (chain_hooks mut_beh all_match
      (snd (snd (chain_hooks mut_beh all_match demo_bus [Str ''event'']))) [Str ''event'']) = [1, 2, 4]"
  by (simp add: called_def chain_hooks_def demo_split getHooks_def hooks_slot_def all_match_def
      mut_beh_def on_def off_def Let_def demo_bus_def demo_hooks_def set_first_def)

theorem dispatch_iterates_snapshot_witness:
  "split_args [Str ''event''] = (Null, Str ''event'', []) \<and>
   snapshot all_match demo_bus (Str ''event'') Null = [1, 2, 3] \<and>
   called (chain_hooks mut_beh all_match demo_bus [Str ''event'']) = [1, 2, 3] \<and>
   hooks (snd (snd (chain_hooks mut_beh all_match demo_bus [Str ''event'']))) (KStr ''event'') =
     Some [(0, 1), (0, 2), (0, 4)] \<and>
   called (chain_hooks mut_beh all_match
      (snd (snd (chain_hooks mut_beh all_match demo_bus [Str ''event'']))) [Str ''event'']) = [1, 2, 4] \<and>
   prefix_of [1, 2, 3] (snapshot all_match demo_bus (Str ''event'') Null)"
  using dispatch_iterates_snapshot [OF demo_split, of mut_beh all_match demo_bus] mut_first mut_second
  by (simp add: demo_split demo_snapshot)

section \<open>The listener limit\<close>











section \<open>Registry\<close>

lemma Inject_resolve_examples:
  "Inject_resolve h Undefined k = None"
  "Inject_resolve h (Array [Str ''a'', Num 1, Str ''1'']) (KStr ''1'') = Some (Literal [(''required'', Bool True)])"
  "Inject_resolve h (Str ''ab'') (KStr ''0'') = Some (Str ''a'')"
  "Inject_resolve h (Str ''ab'') (KStr ''1'') = Some (Str ''b'')"
  "Inject_resolve h (Str ''ab'') (KStr ''2'') = None"
  "Inject_resolve h (Literal [(''required'', Array [Str ''a'']), (''optional'', Array [Str ''a'', Str ''b'']),
      (''c'', Literal [(''required'', Bool True)])]) (KStr ''a'') = Some (Literal [(''required'', Bool False)])"
  "Inject_resolve h (Literal [(''required'', Array [Str ''a'']), (''optional'', Array [Str ''a'', Str ''b'']),
      (''c'', Literal [(''required'', Bool True)])]) (KStr ''c'') = Some (Literal [(''required'', Bool True)])"
  "Inject_resolve h (Literal [(''required'', Array [Str ''a''])]) (KStr ''required'') = None"
  "Inject_resolve class_heap (Fun 1) (KStr ''name'') = None"
  "Inject_resolve class_heap (Fun 1) (KStr ''apply'') = Some (Fun 2)"
  by (simp_all add: Inject_resolve_def fromEntries_def assign_def with_names_def own_props_def
      getprop_def props_of_def class_heap_def decimal_def digits.simps Let_def)

lemma Registry_inject_examples:
  "Registry_inject h call r inject Undefined =
     (Inl (Error ''TypeError: Cannot read properties of undefined (reading 'name')''), r)"
  "fst (Registry_inject class_heap plain_call empty_registry (Array [Str ''a'']) (Fun 2)) =
     Inr \<lparr>scope_config = Literal [], scope_key = Fun 2, scope_call = Start\<rparr>"
  by (simp_all add: Registry_inject_def Registry_plugin_def Registry_resolve_def isApplicable_def
      empty_registry_def resolveConfig_def js_or_def getprop_def props_of_def class_heap_def
      nullish_def Let_def)

lemma exposes_apply_isApplicable: "exposes_apply h v \<longleftrightarrow> isApplicable h v"
  by (cases v) (auto simp: exposes_apply_def isApplicable_def)

lemma function_truthy: "typeof v = ''function'' \<Longrightarrow> truthy v"
  by (cases v) auto

lemma resolve_valid:
  "typeof plugin = ''function'' \<Longrightarrow> Registry_resolve h plugin assert = Inr plugin"
  "typeof plugin \<noteq> ''function'' \<Longrightarrow> exposes_apply h plugin \<Longrightarrow>
     Registry_resolve h plugin assert = Inr (getprop h plugin ''apply'')"
  by (simp_all add: Registry_resolve_def exposes_apply_isApplicable)

lemma resolve_key_truthy:
  "Registry_resolve h plugin True = Inr key \<Longrightarrow>
     truthy key \<and> Registry_resolve h plugin False = Inr key"
  by (auto simp: Registry_resolve_def isApplicable_def function_truthy split: if_splits)

lemma plugin_registers:
  assumes "Registry_plugin h call r plugin config error = (Inr sc, r')"
  shows "\<exists>key. Registry_resolve h plugin True = Inr key \<and>
           internal r' = AList.update key (Plugin_resolve h plugin) (internal r)"
proof (cases "Registry_resolve h plugin True")
  case (Inl e)
  with assms show ?thesis by (simp add: Registry_plugin_def)
next
  case (Inr key)
  with assms have "internal r' = AList.update key (Plugin_resolve h plugin) (internal r)"
    by (auto simp: Registry_plugin_def Let_def split: if_splits sum.splits)
  with Inr show ?thesis by simp
qed

text \<open>
  Claim C4. When the plugin has a valid shape, the scope of the context is active, no
  error was passed in and resolving the configuration throws \<open>reason\<close>, \<open>plugin\<close>
  returns a scope instead of throwing: the metadata is stored under the key, the scope is
  created with the configuration \<open>null\<close> and \<open>cancel(reason)\<close> is called on it, not
  \<open>start()\<close>, and \<open>'internal/error'\<close> is emitted with \<open>reason\<close>.
\<close>

theorem config_failure_captured:
  assumes shape: "Registry_resolve h plugin True = Inr key"
    and active: "scope_active r"
    and fresh: "\<not> truthy error"
    and fails: "resolveConfig h call plugin config = Inl reason"
  shows "Registry_plugin h call r plugin config error =
           (Inr \<lparr>scope_config = Null, scope_key = key, scope_call = Cancel reason\<rparr>,
            r\<lparr>emitted := emitted r @ [(Str ''internal/error'', [reason])],
              internal := AList.update key (Plugin_resolve h plugin) (internal r),
              created := created r @
                [\<lparr>scope_config = Null, scope_key = key, scope_call = Cancel reason\<rparr>]\<rparr>)"
  using assms by (simp add: Registry_plugin_def Let_def)

lemma throwing_config:
  "Registry_resolve class_heap (Obj 4) True = Inr (Fun 6)"
  "resolveConfig class_heap plain_call (Obj 4) (Num 1) = Inl (Error ''bad config'')"
  "scope_active empty_registry" "\<not> truthy Undefined"
  by (simp_all add: Registry_resolve_def isApplicable_def getprop_def props_of_def class_heap_def
      resolveConfig_def js_or_def apply_fn_def plain_call_def empty_registry_def)

theorem config_failure_captured_witness:
  "Registry_plugin class_heap plain_call empty_registry (Obj 4) (Num 1) Undefined =
     (Inr \<lparr>scope_config = Null, scope_key = Fun 6, scope_call = Cancel (Error ''bad config'')\<rparr>,
      empty_registry\<lparr>emitted := [(Str ''internal/error'', [Error ''bad config''])],
        internal := [(Fun 6, Plugin_resolve class_heap (Obj 4))],
        created := [\<lparr>scope_config = Null, scope_key = Fun 6,
                     scope_call = Cancel (Error ''bad config'')\<rparr>]\<rparr>)"
  using config_failure_captured [OF throwing_config(1) throwing_config(3) throwing_config(4)
      throwing_config(2)]
  by (simp add: empty_registry_def)

text \<open>
  Claim C5. \<open>plugin\<close> of a value that is neither a function nor an object exposing an
  \<open>apply\<close> function throws and leaves the registry as it was; for a function or an object
  exposing an \<open>apply\<close> function, \<open>resolve\<close> with \<open>assert\<close> returns a key.
\<close>

theorem plugin_shape_validated:
  "(typeof plugin \<noteq> ''function'' \<and> \<not> exposes_apply h plugin \<longrightarrow>
      (\<exists>e. Registry_plugin h call r plugin config error = (Inl e, r))) \<and>
   (typeof plugin = ''function'' \<or> exposes_apply h plugin \<longrightarrow>
      (\<exists>key. Registry_resolve h plugin True = Inr key))"
  by (auto simp: Registry_plugin_def Registry_resolve_def exposes_apply_isApplicable)

theorem plugin_shape_validated_witness:
  "typeof (Num 3) \<noteq> ''function'' \<and> \<not> exposes_apply class_heap (Num 3) \<and>
   Registry_plugin class_heap plain_call empty_registry (Num 3) Undefined Undefined =
     (Inl (Error ''invalid plugin, expect function or object with an \"apply\" method, received number''),
      empty_registry) \<and>
   exposes_apply class_heap (Obj 3) \<and>
   Registry_resolve class_heap (Obj 3) True = Inr (Fun 2) \<and>
   Registry_resolve class_heap (Fun 1) True = Inr (Fun 1)"
  using plugin_shape_validated [of "Num 3" class_heap plain_call empty_registry Undefined Undefined]
    plugin_shape_validated [of "Obj 3" class_heap]
  by (simp add: exposes_apply_def Registry_plugin_def Registry_resolve_def isApplicable_def
      getprop_def props_of_def class_heap_def)

lemma class_registry_internal: "internal class_registry = [(Fun 1, Plugin_resolve class_heap (Fun 1))]"
  by (simp add: class_registry_def Registry_plugin_def Registry_resolve_def empty_registry_def
      resolveConfig_def js_or_def getprop_def props_of_def class_heap_def nullish_def Let_def)

text \<open>
  Claim C6 does not hold for a class: a class is a function, so it is its own key even
  when it exposes \<open>apply\<close>. The class at reference 1 has the static method \<open>apply\<close> at
  reference 2; \<open>resolve\<close> gives the class, not its \<open>apply\<close>, and after \<open>plugin\<close> of the
  class the registry has the class but neither its \<open>apply\<close> function nor the object that
  shares it.
\<close>

theorem class_identity_counterexample:
  "typeof (Fun 1) = ''function'' \<and>
   getprop class_heap (Fun 1) ''apply'' = Fun 2 \<and>
   Registry_resolve class_heap (Fun 1) False = Inr (Fun 1) \<and>
   Registry_resolve class_heap (Fun 1) False \<noteq> Inr (getprop class_heap (Fun 1) ''apply'') \<and>
   Registry_resolve class_heap (Obj 3) False = Inr (Fun 2) \<and>
   Registry_has class_heap class_registry (Fun 1) \<and>
   \<not> Registry_has class_heap class_registry (Fun 2) \<and>
   Registry_get class_heap class_registry (Obj 3) = None"
  by (simp add: class_registry_internal Registry_has_def Registry_get_def Registry_resolve_def
      isApplicable_def getprop_def props_of_def class_heap_def)

text \<open>
  Claim C6, amended. A function (a class included) is its own key, and a value that is
  not a function but an object exposing an \<open>apply\<close> function has that function as its key.
  A second \<open>plugin\<close> of the same reference leaves the keys of the map as they are (none is
  added), puts the new metadata under the key, and \<open>get\<close> and \<open>has\<close> find it. After
  \<open>delete\<close> of a reference \<open>has\<close> is false and \<open>get\<close> gives \<open>undefined\<close>.
\<close>

theorem plugin_identity:
  "(typeof plugin = ''function'' \<longrightarrow> Registry_resolve h plugin assert = Inr plugin) \<and>
   (typeof plugin \<noteq> ''function'' \<and> exposes_apply h plugin \<longrightarrow>
      Registry_resolve h plugin assert = Inr (getprop h plugin ''apply'')) \<and>
   (distinct (map fst (internal r)) \<and>
    Registry_plugin h call r plugin config error = (Inr sc, r1) \<and>
    Registry_plugin h call r1 plugin config' error' = (Inr sc', r2) \<longrightarrow>
      map fst (internal r2) = map fst (internal r1) \<and> distinct (map fst (internal r2)) \<and>
      Registry_size r2 = Registry_size r1 \<and>
      Registry_get h r2 plugin = Some (Plugin_resolve h plugin) \<and> Registry_has h r2 plugin) \<and>
   (Registry_delete h r plugin = (m, r') \<longrightarrow>
      \<not> Registry_has h r' plugin \<and> Registry_get h r' plugin = None)"
proof -
  have twice: "map fst (internal r2) = map fst (internal r1) \<and> distinct (map fst (internal r2)) \<and>
      Registry_size r2 = Registry_size r1 \<and>
      Registry_get h r2 plugin = Some (Plugin_resolve h plugin) \<and> Registry_has h r2 plugin"
    if d: "distinct (map fst (internal r))"
      and p1: "Registry_plugin h call r plugin config error = (Inr sc, r1)"
      and p2: "Registry_plugin h call r1 plugin config' error' = (Inr sc', r2)"
  proof -
    from plugin_registers[OF p1] obtain key where k: "Registry_resolve h plugin True = Inr key"
      and i1: "internal r1 = AList.update key (Plugin_resolve h plugin) (internal r)" by blast
    from plugin_registers[OF p2] k
    have i2: "internal r2 = AList.update key (Plugin_resolve h plugin) (internal r1)" by auto
    have in1: "key \<in> fst ` set (internal r1)" unfolding i1 by (simp add: AList.dom_update)
    have keys: "map fst (internal r2) = map fst (internal r1)"
      unfolding i2 using in1 by (simp add: AList.update_keys)
    have d1: "distinct (map fst (internal r1))" unfolding i1 using d by (rule AList.distinct_update)
    have g: "map_of (internal r2) key = Some (Plugin_resolve h plugin)"
      unfolding i2 by (simp add: AList.update_conv')
    have in2: "key \<in> fst ` set (internal r2)" unfolding i2 by (simp add: AList.dom_update)
    from resolve_key_truthy[OF k] g in2 keys d1 show ?thesis
      by (simp add: Registry_get_def Registry_has_def Registry_size_def)
        (metis length_map)
  qed
  have del: "\<not> Registry_has h r' plugin \<and> Registry_get h r' plugin = None"
    if dl: "Registry_delete h r plugin = (m, r')"
  proof (cases "Registry_resolve h plugin False")
    case (Inl e)
    then show ?thesis by (simp add: Registry_has_def Registry_get_def)
  next
    case (Inr key)
    show ?thesis
    proof (cases "truthy key")
      case False
      with Inr show ?thesis by (simp add: Registry_has_def Registry_get_def)
    next
      case True
      show ?thesis
      proof (cases "map_of (internal r) key")
        case None
        with dl Inr True have "r' = r" by (simp add: Registry_delete_def)
        with None Inr True show ?thesis
          by (simp add: Registry_has_def Registry_get_def map_of_eq_None_iff)
      next
        case (Some mt)
        with dl Inr True have "internal r' = AList.delete key (internal r)"
          by (auto simp: Registry_delete_def)
        with Inr True show ?thesis
          by (simp add: Registry_has_def Registry_get_def AList.delete_conv' AList.delete_notin_dom)
      qed
    qed
  qed
  from twice del resolve_valid[of plugin h assert] show ?thesis by blast
qed

lemma once_registry_plugin:
  "Registry_plugin class_heap plain_call empty_registry (Obj 3) Undefined Undefined =
     (Inr \<lparr>scope_config = Literal [], scope_key = Fun 2, scope_call = Start\<rparr>, once_registry)"
  by (simp add: once_registry_def prod_eq_iff)
     (simp add: Registry_plugin_def Registry_resolve_def isApplicable_def empty_registry_def
      resolveConfig_def js_or_def getprop_def props_of_def class_heap_def nullish_def Let_def)

lemma once_registry_facts:
  "internal once_registry = [(Fun 2, Plugin_resolve class_heap (Obj 3))]"
  "scope_active once_registry"
  by (simp_all add: once_registry_def Registry_plugin_def Registry_resolve_def isApplicable_def
      empty_registry_def resolveConfig_def js_or_def getprop_def props_of_def class_heap_def
      nullish_def Let_def)

lemma twice_registry_plugin:
  "Registry_plugin class_heap plain_call once_registry (Obj 3) (Num 1) Undefined =
     (Inr \<lparr>scope_config = Num 1, scope_key = Fun 2, scope_call = Start\<rparr>, twice_registry)"
  by (simp add: twice_registry_def prod_eq_iff)
     (simp add: Registry_plugin_def Registry_resolve_def isApplicable_def once_registry_facts
      resolveConfig_def js_or_def getprop_def props_of_def class_heap_def nullish_def Let_def)

lemma twice_registry_delete:
  "Registry_delete class_heap twice_registry (Obj 3) =
     (fst (Registry_delete class_heap twice_registry (Obj 3)),
      snd (Registry_delete class_heap twice_registry (Obj 3)))"
  by simp

theorem plugin_identity_witness:
  "typeof (Fun 1) = ''function'' \<and> Registry_resolve class_heap (Fun 1) True = Inr (Fun 1) \<and>
   typeof (Obj 3) \<noteq> ''function'' \<and> exposes_apply class_heap (Obj 3) \<and>
   Registry_resolve class_heap (Obj 3) True = Inr (Fun 2) \<and>
   distinct (map fst (internal empty_registry)) \<and>
   map fst (internal once_registry) = [Fun 2] \<and>
   map fst (internal twice_registry) = [Fun 2] \<and>
   Registry_size twice_registry = 1 \<and>
   Registry_get class_heap twice_registry (Obj 3) = Some (Plugin_resolve class_heap (Obj 3)) \<and>
   Registry_has class_heap twice_registry (Obj 3) \<and>
   \<not> Registry_has class_heap (snd (Registry_delete class_heap twice_registry (Obj 3))) (Obj 3) \<and>
   Registry_get class_heap (snd (Registry_delete class_heap twice_registry (Obj 3))) (Obj 3) = None"
proof -
  have f: "typeof (Fun 1) = ''function''" by simp
  have e: "distinct (map fst (internal empty_registry))" by (simp add: empty_registry_def)
  have a: "Registry_resolve class_heap (Fun 1) True = Inr (Fun 1)"
    by (rule plugin_identity [of "Fun 1" class_heap True, THEN conjunct1, THEN mp]) (rule f)
  have o: "typeof (Obj 3) \<noteq> ''function'' \<and> exposes_apply class_heap (Obj 3)"
    by (simp add: exposes_apply_def getprop_def props_of_def class_heap_def)
  have b: "Registry_resolve class_heap (Obj 3) True = Inr (getprop class_heap (Obj 3) ''apply'')"
    by (rule plugin_identity [of "Obj 3" class_heap True, THEN conjunct2, THEN conjunct1, THEN mp])
      (rule o)
  have c: "map fst (internal twice_registry) = map fst (internal once_registry) \<and>
      distinct (map fst (internal twice_registry)) \<and>
      Registry_size twice_registry = Registry_size once_registry \<and>
      Registry_get class_heap twice_registry (Obj 3) = Some (Plugin_resolve class_heap (Obj 3)) \<and>
      Registry_has class_heap twice_registry (Obj 3)"
    by (rule plugin_identity [of "Obj 3" class_heap True empty_registry plain_call Undefined Undefined
          "\<lparr>scope_config = Literal [], scope_key = Fun 2, scope_call = Start\<rparr>" once_registry
          "Num 1" Undefined "\<lparr>scope_config = Num 1, scope_key = Fun 2, scope_call = Start\<rparr>"
          twice_registry, THEN conjunct2, THEN conjunct2, THEN conjunct1, THEN mp])
      (simp add: once_registry_plugin twice_registry_plugin e)
  have d: "\<not> Registry_has class_heap (snd (Registry_delete class_heap twice_registry (Obj 3))) (Obj 3) \<and>
      Registry_get class_heap (snd (Registry_delete class_heap twice_registry (Obj 3))) (Obj 3) = None"
    by (rule plugin_identity [of "Obj 3" class_heap True twice_registry plain_call Undefined Undefined
          "\<lparr>scope_config = Literal [], scope_key = Fun 2, scope_call = Start\<rparr>" once_registry
          "Num 1" Undefined "\<lparr>scope_config = Num 1, scope_key = Fun 2, scope_call = Start\<rparr>"
          twice_registry "fst (Registry_delete class_heap twice_registry (Obj 3))"
          "snd (Registry_delete class_heap twice_registry (Obj 3))",
          THEN conjunct2, THEN conjunct2, THEN conjunct2, THEN mp])
      (rule twice_registry_delete)
  have g: "getprop class_heap (Obj 3) ''apply'' = Fun 2"
    by (simp add: getprop_def props_of_def class_heap_def)
  have k: "map fst (internal once_registry) = [Fun 2]" by (simp add: once_registry_facts)
  have sz: "Registry_size once_registry = 1" by (simp add: Registry_size_def once_registry_facts)
  from f a o b c d g e k sz show ?thesis by simp
qed

section \<open>Writes of a service\<close>

lemma numbered_nth: "i < length xs \<Longrightarrow> (i, xs ! i) \<in> set (numbered xs)"
  by (force simp: numbered_def set_zip)

lemma numbered_set: "(i, x) \<in> set (numbered xs) \<Longrightarrow> i < length xs \<and> x = xs ! i"
  by (auto simp: numbered_def set_zip)

lemma requires_watches: "requires sc n \<Longrightarrow> watches sc n"
  by (auto simp: requires_def watches_def list_ex_iff)

lemma watches_cancel: "watches (cancel_scope sc) n = watches sc n"
  by (simp add: watches_def cancel_scope_def)

lemma cancel_events_ran: "list_all is_ran (cancel_events sid sc)"
  by (simp add: cancel_events_def list_all_iff is_ran_def)

lemma start_events_invoked: "list_all is_invoked (start_events avail tbl sid sc)"
  by (simp add: start_events_def is_invoked_def)

lemma concat_single: "i < n \<Longrightarrow> concat (map (\<lambda>j. if j = i then c else []) [0..<n]) = c"
proof (induction n)
  case 0
  then show ?case by simp
next
  case (Suc n)
  then show ?case by (cases "i = n") auto
qed

lemma numbered_map: "numbered xs = map (\<lambda>j. (j, xs ! j)) [0..<length xs]"
  unfolding numbered_def by (rule nth_equalityI) auto

lemma filter_concat_own:
  assumes "i < length xs"
    and own: "\<And>j x. j \<noteq> i \<Longrightarrow> filter P (f (j, x)) = []"
  shows "filter P (concat (map f (numbered xs))) = filter P (f (i, xs ! i))"
proof -
  have "filter P (concat (map f (numbered xs))) =
        concat (map (\<lambda>j. filter P (f (j, xs ! j))) [0..<length xs])"
    by (simp add: numbered_map filter_concat comp_def)
  also have "\<dots> = concat (map (\<lambda>j. if j = i then filter P (f (i, xs ! i)) else []) [0..<length xs])"
    by (rule arg_cong[where f = concat], rule map_cong) (auto simp: own)
  also have "\<dots> = filter P (f (i, xs ! i))"
    using assms(1) by (rule concat_single)
  finally show ?thesis .
qed

lemma filter_ran_by_cancel:
  "filter (ran_by sid) (cancel_events j sc) = (if j = sid then cancel_events j sc else [])"
  by (auto simp: cancel_events_def ran_by_def filter_empty_conv)

lemma satisfiable_cancel: "satisfiable avail tbl (cancel_scope sc) = satisfiable avail tbl sc"
  by (simp add: satisfiable_def cancel_scope_def)

lemma startable_cancel:
  "es_status sc \<noteq> ScopeDisposed \<Longrightarrow> startable avail tbl (cancel_scope sc) = satisfiable avail tbl sc"
  by (simp add: startable_def satisfiable_def cancel_scope_def)

text \<open>
  Claim C1, on the model of the specification. Let \<open>S\<close> be a scope that is not disposed and
  requires \<open>n\<close>. Writing the value \<open>n\<close> already has changes nothing. Any other write adds to
  the journal the disposables that ran, then the write, then the bodies invoked: the
  disposables of \<open>S\<close> all ran before the write, the most recent first, and the body of \<open>S\<close>
  is invoked after the write exactly when \<open>S\<close> is satisfiable in the new table.
\<close>

theorem service_write_cancels_then_restarts:
  assumes sid: "sid < length (effect_scopes k)"
    and S: "S = effect_scopes k ! sid"
    and req: "requires S n"
    and live: "es_status S \<noteq> ScopeDisposed"
  shows "(service_table k n = v \<longrightarrow> set_service avail body k n v = k) \<and>
         (service_table k n \<noteq> v \<longrightarrow>
            (\<exists>before after.
               journal (set_service avail body k n v) = journal k @ before @ [Wrote n v] @ after \<and>
               service_table (set_service avail body k n v) = (service_table k)(n := v) \<and>
               list_all is_ran before \<and> list_all is_invoked after \<and>
               filter (ran_by sid) before = map (Ran sid) (rev (es_disposables S)) \<and>
               (Invoked sid \<in> set after \<longleftrightarrow> satisfiable avail ((service_table k)(n := v)) S)))"
proof -
  let ?tbl = "(service_table k)(n := v)"
  let ?fb = "\<lambda>(j, sc). if watches sc n then cancel_events j sc else []"
  let ?cancelled = "map (\<lambda>sc. if watches sc n then cancel_scope sc else sc) (effect_scopes k)"
  let ?fa = "\<lambda>(j, sc). if watches sc n then start_events avail ?tbl j sc else []"
  let ?before = "concat (map ?fb (numbered (effect_scopes k)))"
  let ?after = "concat (map ?fa (numbered ?cancelled))"
  have w: "watches S n" using req by (rule requires_watches)
  have same: "service_table k n = v \<Longrightarrow> set_service avail body k n v = k"
    by (simp add: set_service_def)
  have j: "journal (set_service avail body k n v) = journal k @ ?before @ [Wrote n v] @ ?after"
    and t: "service_table (set_service avail body k n v) = ?tbl"
    if "service_table k n \<noteq> v"
    using that by (simp_all add: set_service_def Let_def)
  have rb: "list_all is_ran ?before"
    using cancel_events_ran by (auto simp: list_all_iff split: if_splits)
  have ia: "list_all is_invoked ?after"
    using start_events_invoked by (auto simp: list_all_iff split: if_splits)
  have "filter (ran_by sid) ?before = filter (ran_by sid) (?fb (sid, effect_scopes k ! sid))"
    by (rule filter_concat_own[OF sid]) (simp add: filter_ran_by_cancel)
  also have "\<dots> = map (Ran sid) (rev (es_disposables S))"
    using w live S by (simp add: filter_ran_by_cancel) (simp add: cancel_events_def)
  finally have fb: "filter (ran_by sid) ?before = map (Ran sid) (rev (es_disposables S))" .
  have len: "sid < length ?cancelled" using sid by simp
  have cs: "?cancelled ! sid = cancel_scope S" using sid w S by simp
  have "filter (\<lambda>e. e = Invoked sid) ?after =
        filter (\<lambda>e. e = Invoked sid) (?fa (sid, ?cancelled ! sid))"
    by (rule filter_concat_own[OF len]) (simp add: start_events_def)
  also have "\<dots> = (if satisfiable avail ?tbl S then [Invoked sid] else [])"
    unfolding cs using w live by (simp add: watches_cancel start_events_def startable_cancel)
  finally have "filter (\<lambda>e. e = Invoked sid) ?after =
      (if satisfiable avail ?tbl S then [Invoked sid] else [])" .
  moreover have "Invoked sid \<in> set ?after \<longleftrightarrow> filter (\<lambda>e. e = Invoked sid) ?after \<noteq> []"
    by (simp only: filter_empty_conv) blast
  ultimately have inv: "Invoked sid \<in> set ?after \<longleftrightarrow> satisfiable avail ?tbl S"
    by simp
  from same j t rb ia fb inv show ?thesis by blast
qed

lemma numbered_single: "numbered [x] = [(0, x)]"
  by (simp add: numbered_def)

lemmas test_defs = set_service_def Let_def numbered_single watches_def cancel_scope_def
  cancel_events_def start_scope_def start_events_def startable_def satisfiable_def present_def
  test_body_def

lemma test_kernel1_facts:
  "service_table test_kernel1 ''foo'' = Obj 1"
  "effect_scopes test_kernel1 = [\<lparr>es_deps = [(''foo'', True)], es_reactive = False,
                        es_status = ScopeActive, es_disposables = [42]\<rparr>]"
  "journal test_kernel1 = [Wrote ''foo'' (Obj 1), Invoked 0]"
  by (simp_all add: test_kernel1_def test_kernel_def test_defs)

lemma test_kernel2_same: "test_kernel2 = test_kernel1"
  by (simp add: test_kernel2_def set_service_def test_kernel1_facts)

lemma test_kernel3_facts:
  "service_table test_kernel3 ''foo'' = Obj 2"
  "effect_scopes test_kernel3 = [\<lparr>es_deps = [(''foo'', True)], es_reactive = False,
                        es_status = ScopeActive, es_disposables = [42]\<rparr>]"
  "journal test_kernel3 =
     [Wrote ''foo'' (Obj 1), Invoked 0, Ran 0 42, Wrote ''foo'' (Obj 2), Invoked 0]"
  by (simp_all add: test_kernel3_def test_kernel2_same test_kernel1_facts test_defs)

lemma test_kernel4_facts:
  "journal test_kernel4 =
     [Wrote ''foo'' (Obj 1), Invoked 0, Ran 0 42, Wrote ''foo'' (Obj 2), Invoked 0,
      Ran 0 42, Wrote ''foo'' Null]"
  "effect_scopes test_kernel4 = [\<lparr>es_deps = [(''foo'', True)], es_reactive = False,
                        es_status = ScopePending, es_disposables = []\<rparr>]"
  by (simp_all add: test_kernel4_def test_kernel3_facts test_defs)

theorem service_write_cancels_then_restarts_witness:
  "0 < length (effect_scopes test_kernel1) \<and>
   requires (effect_scopes test_kernel1 ! 0) ''foo'' \<and>
   es_status (effect_scopes test_kernel1 ! 0) \<noteq> ScopeDisposed \<and>
   journal test_kernel1 = [Wrote ''foo'' (Obj 1), Invoked 0] \<and>
   set_service present test_body test_kernel1 ''foo'' (Obj 1) = test_kernel1 \<and>
   journal (set_service present test_body test_kernel1 ''foo'' (Obj 2)) =
     journal test_kernel1 @ [Ran 0 42] @ [Wrote ''foo'' (Obj 2)] @ [Invoked 0] \<and>
   satisfiable present ((service_table test_kernel1)(''foo'' := Obj 2)) (effect_scopes test_kernel1 ! 0) \<and>
   journal test_kernel4 =
     journal test_kernel3 @ [Ran 0 42] @ [Wrote ''foo'' Null] @ [] \<and>
   \<not> satisfiable present ((service_table test_kernel3)(''foo'' := Null)) (effect_scopes test_kernel3 ! 0)"
proof -
  have h: "0 < length (effect_scopes test_kernel1)"
    "requires (effect_scopes test_kernel1 ! 0) ''foo''"
    "es_status (effect_scopes test_kernel1 ! 0) \<noteq> ScopeDisposed"
    by (simp_all add: test_kernel1_facts requires_def)
  have same: "set_service present test_body test_kernel1 ''foo'' (Obj 1) = test_kernel1"
    using service_write_cancels_then_restarts [OF h(1) refl h(2) h(3), of "Obj 1" present test_body]
    by (simp add: test_kernel1_facts)
  have j3: "journal (set_service present test_body test_kernel1 ''foo'' (Obj 2)) =
     journal test_kernel1 @ [Ran 0 42] @ [Wrote ''foo'' (Obj 2)] @ [Invoked 0]"
    using test_kernel3_facts(3) by (simp add: test_kernel3_def test_kernel2_same test_kernel1_facts)
  have s3: "satisfiable present ((service_table test_kernel1)(''foo'' := Obj 2))
      (effect_scopes test_kernel1 ! 0)"
    by (simp add: test_kernel1_facts satisfiable_def present_def)
  have j4: "journal test_kernel4 = journal test_kernel3 @ [Ran 0 42] @ [Wrote ''foo'' Null] @ []"
    by (simp add: test_kernel4_facts test_kernel3_facts)
  have s4: "\<not> satisfiable present ((service_table test_kernel3)(''foo'' := Null))
      (effect_scopes test_kernel3 ! 0)"
    by (simp add: test_kernel3_facts satisfiable_def present_def)
  from h same j3 s3 j4 s4 test_kernel1_facts(3) show ?thesis by simp
qed

end
